theory Spec2Isabelle
  imports Complex_Main "HOL-Library.Word"
begin

unbundle bit_operations_syntax

section \<open>Data model\<close>

text \<open>
  The embedding follows the build in which \<^verbatim>\<open>RISCV_ENABLE_COMMITLOG\<close> and
  \<^verbatim>\<open>RISCV_ENABLE_SIFT\<close> are defined (the access-period tracker reads the commit-log
  buffers unconditionally, so the file only compiles with the former).
  \<^verbatim>\<open>processor_t\<close>, its \<^verbatim>\<open>state_t\<close>, the vector unit, the one MMU field the loop
  reads and the process-wide \<^verbatim>\<open>sift_executed_insn\<close> are flattened into one record.
  Output streams are lists that grow at the end.
\<close>

type_synonym reg_t = "64 word"

text \<open>\<^verbatim>\<open>insn_t\<close>: what its accessors \<^verbatim>\<open>bits()\<close> and \<^verbatim>\<open>length()\<close> return.\<close>

record insn_t =
  insn_bits :: "64 word"
  insn_length :: int

datatype step_t = STEP_NONE | STEP_STEPPING | STEP_STEPPED

datatype halt_request_t = HR_NONE | HR_REGULAR | HR_GROUP

datatype dcsr_cause_t =
  DCSR_CAUSE_SWBP | DCSR_CAUSE_HWBP | DCSR_CAUSE_DEBUGINT
  | DCSR_CAUSE_STEP | DCSR_CAUSE_HALT | DCSR_CAUSE_GROUP

text \<open>\<^verbatim>\<open>period_t(count, is_vector)\<close>: one interval sample, or the seed of an entry.\<close>

record period_t =
  period :: reg_t
  is_vector :: bool

text \<open>
  \<^verbatim>\<open>period_info_t\<close> is declared outside the files at hand; the code here only calls its
  constructor, \<^verbatim>\<open>get_last_access\<close>, \<^verbatim>\<open>set_last_access\<close> and \<^verbatim>\<open>get_period_list\<close>.
  The record holds what these read and write, plus the classification the entry was
  seeded with.
\<close>

record period_info_t =
  period_list :: "period_t list"
  last_access :: reg_t
  vector_flag :: bool

text \<open>
  Events of the trace sink. \<^verbatim>\<open>Instruction(addr, size, num_addresses, addresses, is_branch,
  taken, is_predicate, executed)\<close> carries the first \<^verbatim>\<open>num_addresses\<close> cells of the
  address buffer as a list.
\<close>

datatype sift_event =
  Instruction reg_t reg_t "reg_t list" bool bool bool bool
  | Magic reg_t reg_t reg_t

text \<open>
  One register of a commit-log line: the prefix character, the register number and the
  width it is printed at, with the logged value (a vector register prints the register
  file's bytes, which live outside this record, so only its number and width are kept).
\<close>

datatype commit_reg =
  CommitReg char reg_t int "128 word"
  | CommitVReg reg_t int

text \<open>
  What goes to \<^verbatim>\<open>stderr\<close>: the diagnostic line of the access-period tracker
  (last access, current access, period) and the disassembly shown in interactive mode.
\<close>

datatype stderr_line = PeriodLine reg_t reg_t reg_t | DisasmLine insn_t

text \<open>
  A commit-log line, as the values it is formatted from (the text layout itself is left
  to \<^verbatim>\<open>fprintf\<close>): core id, privilege, pc and its width, instruction bits and their
  width, the vector configuration header (\<^verbatim>\<open>vsew\<close>, \<^verbatim>\<open>vflmul\<close>, \<^verbatim>\<open>vl\<close>) when one is
  shown, the registers, the load addresses, the stores (address, value, width).
\<close>

record commit_line =
  cl_id :: int
  cl_priv :: int
  cl_pc :: "reg_t \<times> int"
  cl_insn :: "64 word \<times> int"
  cl_vec :: "(reg_t \<times> rat \<times> reg_t) option"
  cl_regs :: "commit_reg list"
  cl_loads :: "reg_t list"
  cl_stores :: "(reg_t \<times> reg_t \<times> int) list"

record 'a processor =
  \<comment> \<open>\<^verbatim>\<open>state_t\<close>\<close>
  pc :: reg_t
  prv :: int
  minstret :: reg_t
  mcycle :: reg_t
  single_step :: step_t
  debug_mode :: bool
  serialized :: bool
  dcsr_halt :: bool
  last_inst_priv :: int
  last_inst_xlen :: int
  last_inst_flen :: int
  log_reg_write :: "(reg_t \<times> 128 word) list"
  log_mem_read :: "(reg_t \<times> reg_t \<times> 8 word) list"
  log_mem_write :: "(reg_t \<times> reg_t \<times> 8 word) list"
  log_addr :: "nat \<Rightarrow> reg_t"
  log_reg_addr :: "nat \<Rightarrow> reg_t"
  log_addr_valid :: nat
  log_is_branch :: bool
  log_is_branch_taken :: bool
  log_writer :: "sift_event list"
  \<comment> \<open>\<^verbatim>\<open>processor_t\<close>\<close>
  core_id :: int
  xlen :: int
  flen :: int
  debug :: bool
  halt_request :: halt_request_t
  log_commits_enabled :: bool
  log_file :: "commit_line list"
  addr_history :: "reg_t \<rightharpoonup> period_info_t"
  pc_histogram :: "reg_t \<Rightarrow> nat"
  VU_VLEN :: int
  VU_vsew :: reg_t
  VU_vflmul :: rat
  VU_vl :: reg_t
  VU_vtype :: reg_t
  \<comment> \<open>\<^verbatim>\<open>mmu_t\<close>: whether \<^verbatim>\<open>matched_trigger\<close> is non-null\<close>
  matched_trigger :: bool
  \<comment> \<open>process-wide\<close>
  sift_executed_insn :: "32 word"
  stderr_out :: "stderr_line list"
  mhpmcounter :: "nat \<Rightarrow> reg_t"
  \<comment> \<open>everything else the semantic handlers and the MMU own: registers, memory, caches\<close>
  arch :: 'a

text \<open>
  Constants and macros declared outside the files at hand, taken as parameters: the
  masks of the instruction encoding table, the two serialization sentinels with the
  test \<^verbatim>\<open>invalid_pc\<close> that recognises them, and whether the build defines
  \<^verbatim>\<open>RISCV_ENABLE_HISTOGRAM\<close>.
\<close>

record encoding =
  PC_SERIALIZE_BEFORE :: reg_t
  PC_SERIALIZE_AFTER :: reg_t
  invalid_pc :: "reg_t \<Rightarrow> bool"
  RISCV_ENABLE_HISTOGRAM :: bool
  MASK_VMV_V_X :: "32 word"
  MATCH_VMV_V_X :: "32 word"
  MASK_VSETVLI :: "32 word"
  MATCH_VSETVLI :: "32 word"
  MASK_VSETIVLI :: "32 word"
  MATCH_VSETIVLI :: "32 word"
  MASK_VSETVL :: "32 word"
  MATCH_VSETVL :: "32 word"

section \<open>Raw-op reconstructor (\<^verbatim>\<open>log_print_sift_trace\<close>)\<close>

definition record_executed_insn :: "64 word \<Rightarrow> 'a processor \<Rightarrow> 'a processor" where
  "record_executed_insn insn p = p\<lparr>sift_executed_insn := ucast insn\<rparr>"

text \<open>
  The three field updates. \<^verbatim>\<open>vd_origin\<close> is a \<^verbatim>\<open>char\<close>: it holds the field value
  (at most 31) and then that value plus one (at most 32), which is shifted back as an
  \<^verbatim>\<open>int\<close> and or-ed into the word whose field was cleared.
\<close>

definition inc_vd :: "32 word \<Rightarrow> 32 word" where
  "inc_vd w =
     (let vd_origin = (ucast (drop_bit 7 w AND 0x01f) :: 8 word);
          vd_origin = vd_origin + 1
      in (w AND NOT (push_bit 7 0x1f)) OR push_bit 7 (ucast vd_origin))"

definition inc_vs1 :: "32 word \<Rightarrow> 32 word" where
  "inc_vs1 w =
     (let vs1_origin = (ucast (drop_bit 15 w AND 0x01f) :: 8 word);
          vs1_origin = vs1_origin + 1
      in (w AND NOT (push_bit 15 0x1f)) OR push_bit 15 (ucast vs1_origin))"

definition inc_vs2 :: "32 word \<Rightarrow> 32 word" where
  "inc_vs2 w =
     (let vs2_origin = (ucast (drop_bit 20 w AND 0x01f) :: 8 word);
          vs2_origin = vs2_origin + 1
      in (w AND NOT (push_bit 20 0x1f)) OR push_bit 20 (ucast vs2_origin))"

text \<open>The instruction-form tests, all read from the word after the vd update.\<close>

definition is_opivx :: "32 word \<Rightarrow> bool" where
  "is_opivx w \<longleftrightarrow> w AND 0x7f = 0x57 \<and> drop_bit 12 w AND 0x7 = 0x4"

definition is_opfvf :: "32 word \<Rightarrow> bool" where
  "is_opfvf w \<longleftrightarrow> w AND 0x7f = 0x57 \<and> drop_bit 12 w AND 0x7 = 0x5"

definition is_opmvx :: "32 word \<Rightarrow> bool" where
  "is_opmvx w \<longleftrightarrow> w AND 0x7f = 0x57 \<and> drop_bit 12 w AND 0x7 = 0x6"

definition is_opfvv_vfunary0 :: "32 word \<Rightarrow> bool" where
  "is_opfvv_vfunary0 w \<longleftrightarrow>
     w AND 0x7f = 0x57 \<and> drop_bit 12 w AND 0x7 = 0x1 \<and> drop_bit 26 w AND 0x3f = 0x12"

definition is_opfvv_vfunary1 :: "32 word \<Rightarrow> bool" where
  "is_opfvv_vfunary1 w \<longleftrightarrow>
     w AND 0x7f = 0x57 \<and> drop_bit 12 w AND 0x7 = 0x1 \<and> drop_bit 26 w AND 0x3f = 0x13"

definition is_opmvv_vxunary1 :: "32 word \<Rightarrow> bool" where
  "is_opmvv_vxunary1 w \<longleftrightarrow>
     w AND 0x7f = 0x57 \<and> drop_bit 12 w AND 0x7 = 0x2 \<and> drop_bit 26 w AND 0x3f = 0x13"

definition is_opmvv_vmunary1 :: "32 word \<Rightarrow> bool" where
  "is_opmvv_vmunary1 w \<longleftrightarrow>
     w AND 0x7f = 0x57 \<and> drop_bit 12 w AND 0x7 = 0x2 \<and> drop_bit 26 w AND 0x3f = 0x14"

definition is_vlx_indexed :: "32 word \<Rightarrow> bool" where
  "is_vlx_indexed w \<longleftrightarrow> w AND 0x7f = 0x07 \<and> drop_bit 26 w AND 0x1 = 1"

definition is_vsx_indexed :: "32 word \<Rightarrow> bool" where
  "is_vsx_indexed w \<longleftrightarrow> w AND 0x7f = 0x27 \<and> drop_bit 26 w AND 0x1 = 1"

definition is_opivi :: "32 word \<Rightarrow> bool" where
  "is_opivi w \<longleftrightarrow> w AND 0x7f = 0x57 \<and> drop_bit 12 w AND 0x7 = 0x3"

text \<open>
  What one pass of the loop body does to the held word once the record is written:
  vd always; vs1 for an instruction without addresses that is none of the listed forms;
  vs2 for an instruction without addresses or an indexed load or store, unless it is a
  widening conversion (bit 18 of the word as it stands then) or \<^verbatim>\<open>vmv.v.x\<close>.
\<close>

definition uop_increment :: "encoding \<Rightarrow> nat \<Rightarrow> 32 word \<Rightarrow> 32 word" where
  "uop_increment enc num_addresses w0 =
     (let w1 = inc_vd w0;
          w2 = (if num_addresses = 0
                   \<and> \<not> is_opfvv_vfunary0 w1 \<and> \<not> is_opfvv_vfunary1 w1
                   \<and> \<not> is_opmvv_vxunary1 w1 \<and> \<not> is_opmvv_vmunary1 w1
                   \<and> \<not> is_opivx w1 \<and> \<not> is_opfvf w1 \<and> \<not> is_opmvx w1 \<and> \<not> is_opivi w1
                then inc_vs1 w1 else w1)
      in if num_addresses = 0 \<or> is_vlx_indexed w1 \<or> is_vsx_indexed w1
         then (if (is_opfvv_vfunary0 w1 \<and> drop_bit 18 w2 AND 1 = 1)
                  \<or> MASK_VMV_V_X enc AND w2 = MATCH_VMV_V_X enc
               then w2 else inc_vs2 w2)
         else w2)"

text \<open>
  The destination registers: the indices of the vector-register entries of the write log
  (kind 2), then every logged destination not yet in the array, sorted ascending.
\<close>

fun vreg_array_addrs :: "(nat \<Rightarrow> reg_t) \<Rightarrow> nat list \<Rightarrow> reg_t list \<Rightarrow> reg_t list" where
  "vreg_array_addrs wr_regs [] vreg_array = vreg_array"
| "vreg_array_addrs wr_regs (addr_i # is) vreg_array =
     vreg_array_addrs wr_regs is
       (if wr_regs addr_i \<notin> set vreg_array then vreg_array @ [wr_regs addr_i] else vreg_array)"

definition vreg_array_of :: "'a processor \<Rightarrow> reg_t list" where
  "vreg_array_of p =
     sort (vreg_array_addrs (log_reg_addr p) [0 ..< log_addr_valid p]
        (map (\<lambda>i. drop_bit 4 (fst i)) (filter (\<lambda>i. fst i AND 0xf = 2) (log_reg_write p))))"

text \<open>The addresses logged for one destination register, in log order.\<close>

definition uop_addresses :: "'a processor \<Rightarrow> reg_t \<Rightarrow> reg_t list" where
  "uop_addresses p vreg =
     map (log_addr p) (filter (\<lambda>addr_i. vreg = log_reg_addr p addr_i) [0 ..< log_addr_valid p])"

text \<open>One pass of the loop over the destination registers: the record, then the word.\<close>

definition uop_step :: "encoding \<Rightarrow> reg_t \<Rightarrow> insn_t \<Rightarrow> reg_t \<Rightarrow> 'a processor \<Rightarrow> 'a processor" where
  "uop_step enc pc0 insn vreg p =
     p\<lparr>log_writer := log_writer p @
          [Instruction pc0 (word_of_int (insn_length insn)) (uop_addresses p vreg)
             (log_is_branch p) (log_is_branch_taken p) False True],
       sift_executed_insn := uop_increment enc (log_addr_valid p) (sift_executed_insn p)\<rparr>"

fun uop_loop :: "encoding \<Rightarrow> reg_t \<Rightarrow> insn_t \<Rightarrow> reg_t list \<Rightarrow> 'a processor \<Rightarrow> 'a processor" where
  "uop_loop enc pc0 insn [] p = p"
| "uop_loop enc pc0 insn (vreg # vregs) p = uop_loop enc pc0 insn vregs (uop_step enc pc0 insn vreg p)"

text \<open>The branch without vector registers: one record, then the out-of-band markers.\<close>

definition scalar_trace :: "encoding \<Rightarrow> reg_t \<Rightarrow> insn_t \<Rightarrow> 'a processor \<Rightarrow> 'a processor" where
  "scalar_trace enc pc0 insn p =
     (let w = sift_executed_insn p;
          out1 = [Instruction pc0 (word_of_int (insn_length insn))
                    (map (log_addr p) [0 ..< log_addr_valid p])
                    (log_is_branch p) (log_is_branch_taken p) False True];
          out2 = (if w = 0x00100013 then [Magic 1 0 0] else []);
          out3 = (if w = 0x00200013 then [Magic 2 0 0] else []);
          out4 = (if w AND MASK_VSETVLI enc = MATCH_VSETVLI enc
                     \<or> w AND MASK_VSETIVLI enc = MATCH_VSETIVLI enc
                     \<or> w AND MASK_VSETVL enc = MATCH_VSETVL enc
                  then [Magic 5 (VU_vl p) (VU_vtype p)] else [])
      in p\<lparr>log_writer := log_writer p @ out1 @ out2 @ out3 @ out4\<rparr>)"

definition log_print_sift_trace :: "encoding \<Rightarrow> reg_t \<Rightarrow> insn_t \<Rightarrow> 'a processor \<Rightarrow> 'a processor" where
  "log_print_sift_trace enc pc0 insn p =
     (let vreg_array = vreg_array_of p;
          p1 = (if length vreg_array > 0 then uop_loop enc pc0 insn vreg_array p
                else scalar_trace enc pc0 insn p)
      in p1\<lparr>log_addr_valid := 0, log_is_branch := False, log_is_branch_taken := False\<rparr>)"

section \<open>Commit log\<close>

definition commit_log_reset :: "'a processor \<Rightarrow> 'a processor" where
  "commit_log_reset p =
     p\<lparr>log_reg_write := [], log_mem_read := [], log_mem_write := [],
       log_addr_valid := 0, log_is_branch := False, log_is_branch_taken := False\<rparr>"

definition commit_log_stash_privilege :: "'a processor \<Rightarrow> 'a processor" where
  "commit_log_stash_privilege p =
     p\<lparr>last_inst_priv := prv p, last_inst_xlen := xlen p, last_inst_flen := flen p\<rparr>"

text \<open>
  \<^verbatim>\<open>commit_log_print_value\<close> prints at widths 8, 16, 32 and 64 and at any width with
  \<^verbatim>\<open>((width - 1) & width) == 0\<close>; at every other width it calls \<^verbatim>\<open>abort()\<close>.
\<close>

definition printable_width :: "int \<Rightarrow> bool" where
  "printable_width width \<longleftrightarrow>
     width = 8 \<or> width = 16 \<or> width = 32 \<or> width = 64 \<or> (width - 1) AND width = 0"

text \<open>
  The loop over the register-write log. An entry with key 0 is skipped; the low four bits
  of the key select the register kind, and an unknown kind fails the assertion. The flag
  \<^verbatim>\<open>show_vec\<close> is raised by the first vector entry (kind 2 or 3). \<^verbatim>\<open>None\<close> stands for
  the process ending in \<^verbatim>\<open>abort()\<close> or in the failed assertion.
\<close>

fun commit_log_print_regs ::
  "'a processor \<Rightarrow> (reg_t \<times> 128 word) list \<Rightarrow> bool \<Rightarrow> commit_reg list
     \<Rightarrow> (bool \<times> commit_reg list) option" where
  "commit_log_print_regs p [] show_vec out = Some (show_vec, out)"
| "commit_log_print_regs p (item # items) show_vec out =
     (if fst item = 0 then commit_log_print_regs p items show_vec out
      else
        (let rd = drop_bit 4 (fst item); kind = fst item AND 0xf
         in if kind = 0 then
              (if printable_width (last_inst_xlen p)
               then commit_log_print_regs p items show_vec
                      (out @ [CommitReg CHR ''x'' rd (last_inst_xlen p) (snd item)])
               else None)
            else if kind = 1 then
              (if printable_width (last_inst_flen p)
               then commit_log_print_regs p items show_vec
                      (out @ [CommitReg CHR ''f'' rd (last_inst_flen p) (snd item)])
               else None)
            else if kind = 2 then
              (if printable_width (VU_VLEN p)
               then commit_log_print_regs p items True (out @ [CommitVReg rd (VU_VLEN p)])
               else None)
            else if kind = 3 then commit_log_print_regs p items True out
            else if kind = 4 then
              (if printable_width (last_inst_xlen p)
               then commit_log_print_regs p items show_vec
                      (out @ [CommitReg CHR ''c'' rd (last_inst_xlen p) (snd item)])
               else None)
            else None))"

text \<open>The line, once the register loop has run.\<close>

definition commit_log_line ::
  "reg_t \<Rightarrow> insn_t \<Rightarrow> 'a processor \<Rightarrow> bool \<Rightarrow> commit_reg list \<Rightarrow> commit_line" where
  "commit_log_line pc0 insn p show_vec regs =
     \<lparr>cl_id = core_id p, cl_priv = last_inst_priv p, cl_pc = (pc0, last_inst_xlen p),
       cl_insn = (insn_bits insn, insn_length insn * 8),
       cl_vec = (if show_vec then Some (VU_vsew p, VU_vflmul p, VU_vl p) else None),
       cl_regs = regs,
       cl_loads = map fst (log_mem_read p),
       cl_stores = map (\<lambda>item. (fst item, fst (snd item), push_bit 3 (uint (snd (snd item)))))
                     (log_mem_write p)\<rparr>"

text \<open>
  \<^verbatim>\<open>commit_log_print_insn\<close>: the pc is printed at the stashed \<^verbatim>\<open>xlen\<close>, the instruction
  at eight times its length, the load addresses at \<^verbatim>\<open>xlen\<close>, a stored value at eight times
  its size; the process aborts at the first width that cannot be printed.
\<close>

definition commit_log_print_insn :: "reg_t \<Rightarrow> insn_t \<Rightarrow> 'a processor \<Rightarrow> 'a processor option" where
  "commit_log_print_insn pc0 insn p =
     (if \<not> printable_width (last_inst_xlen p) then None
      else if \<not> printable_width (insn_length insn * 8) then None
      else
        (case commit_log_print_regs p (log_reg_write p) False [] of
           None \<Rightarrow> None
         | Some (show_vec, regs) \<Rightarrow>
             if list_ex (\<lambda>item. \<not> printable_width (push_bit 3 (uint (snd (snd item)))))
                  (log_mem_write p)
             then None
             else Some (p\<lparr>log_file := log_file p @ [commit_log_line pc0 insn p show_vec regs]\<rparr>)))"

definition update_histogram :: "encoding \<Rightarrow> reg_t \<Rightarrow> 'a processor \<Rightarrow> 'a processor" where
  "update_histogram enc pc0 p =
     (if RISCV_ENABLE_HISTOGRAM enc
      then p\<lparr>pc_histogram := (pc_histogram p)(pc0 := pc_histogram p pc0 + 1)\<rparr> else p)"

section \<open>Access-period tracker (\<^verbatim>\<open>log_print_mem_access\<close>)\<close>

definition VEC_ARITH_MATCH :: reg_t where
  "VEC_ARITH_MATCH = 0x57"

definition VEC_LOAD_MATCH :: reg_t where
  "VEC_LOAD_MATCH = 0x07"

definition VEC_STORE_MATCH :: reg_t where
  "VEC_STORE_MATCH = 0x27"

definition is_vector_insn :: "insn_t \<Rightarrow> bool" where
  "is_vector_insn insn =
     (let insn_bit = insn_bits insn
      in insn_bit AND 0x7f = VEC_ARITH_MATCH
         \<or> insn_bit AND 0x7f = VEC_LOAD_MATCH
         \<or> insn_bit AND 0x7f = VEC_STORE_MATCH)"

text \<open>
  Modelled from the spec: the constructor of \<^verbatim>\<open>period_info_t\<close>, whose class is declared
  outside the files at hand. A new entry is "seeded with the current retired-instruction
  count and the vector classification", and the interval list of an address holds no
  entry after its first access.
\<close>

definition new_period_info_t :: "period_t \<Rightarrow> period_info_t" where
  "new_period_info_t init =
     \<lparr>period_list = [], last_access = period init, vector_flag = is_vector init\<rparr>"

definition set_last_access :: "reg_t \<Rightarrow> period_info_t \<Rightarrow> period_info_t" where
  "set_last_access count e = e\<lparr>last_access := count\<rparr>"

text \<open>The body of the loop over the stores, on the history table.\<close>

definition store_access ::
  "reg_t \<Rightarrow> bool \<Rightarrow> (reg_t \<rightharpoonup> period_info_t) \<Rightarrow> reg_t \<Rightarrow> (reg_t \<rightharpoonup> period_info_t)" where
  "store_access count vec h addr =
     (case h addr of
        None \<Rightarrow> h(addr \<mapsto> new_period_info_t \<lparr>period = count, is_vector = vec\<rparr>)
      | Some e \<Rightarrow> h(addr \<mapsto> set_last_access count e))"

text \<open>
  The body of the loop over the loads, on the history table and \<^verbatim>\<open>stderr\<close> (one
  hard-coded address prints a diagnostic line).
\<close>

definition load_access ::
  "reg_t \<Rightarrow> bool \<Rightarrow> (reg_t \<rightharpoonup> period_info_t) \<times> stderr_line list \<Rightarrow> reg_t
     \<Rightarrow> (reg_t \<rightharpoonup> period_info_t) \<times> stderr_line list" where
  "load_access count vec he addr =
     (case fst he addr of
        None \<Rightarrow> ((fst he)(addr \<mapsto> new_period_info_t \<lparr>period = count, is_vector = vec\<rparr>), snd he)
      | Some e \<Rightarrow>
          (let last = last_access e;
               err = (if addr = 0x0041ad20
                      then snd he @ [PeriodLine last count (count - last)] else snd he);
               e1 = e\<lparr>period_list := period_list e @ [\<lparr>period = count - last, is_vector = vec\<rparr>]\<rparr>
           in ((fst he)(addr \<mapsto> set_last_access count e1), err)))"

definition log_print_mem_access :: "reg_t \<Rightarrow> insn_t \<Rightarrow> 'a processor \<Rightarrow> 'a processor" where
  "log_print_mem_access pc0 insn p =
     (let vec = is_vector_insn insn;
          count = minstret p;
          h1 = foldl (store_access count vec) (addr_history p) (map fst (log_mem_write p));
          he = foldl (load_access count vec) (h1, stderr_out p) (map fst (log_mem_read p))
      in p\<lparr>addr_history := fst he, stderr_out := snd he\<rparr>)"

section \<open>Instruction execution step (\<^verbatim>\<open>execute_insn\<close>)\<close>

text \<open>
  The exceptions the loop distinguishes. \<^verbatim>\<open>mem_trap_t\<close> derives from \<^verbatim>\<open>trap_t\<close>:
  a trap object records whether it is one, so that \<^verbatim>\<open>catch (mem_trap_t&)\<close> selects it
  and \<^verbatim>\<open>catch (trap_t&)\<close> selects every trap.
\<close>

record trap_t =
  is_mem_trap :: bool
  cause :: reg_t
  tval :: reg_t

datatype action_t = ACTION_DEBUG_EXCEPTION | ACTION_DEBUG_MODE | ACTION_OTHER

datatype signal =
  Trap trap_t
  | Matched action_t reg_t
  | TrapDebugMode
  | WaitForInterrupt

text \<open>
  A semantic handler gets the processor, the instruction and its pc; it returns the next
  pc or throws, and in both cases leaves the processor as far as it got.
\<close>

type_synonym 'a insn_func_t = "'a processor \<Rightarrow> insn_t \<Rightarrow> reg_t \<Rightarrow> (signal + reg_t) \<times> 'a processor"

record 'a insn_fetch_t =
  insn :: insn_t
  func :: "'a insn_func_t"

text \<open>How a call ends: the process aborts, an exception leaves it, or it returns.\<close>

datatype ('r, 'a) result =
  Abort
  | Throw signal "'a processor"
  | Return 'r "'a processor"

text \<open>
  The three statements that two of the handlers and the normal path share: hold the
  word, print the commit-log line, write the trace records.
\<close>

definition commit_and_trace ::
  "encoding \<Rightarrow> reg_t \<Rightarrow> insn_t \<Rightarrow> 'a processor \<Rightarrow> 'a processor option" where
  "commit_and_trace enc pc0 i p =
     (case commit_log_print_insn pc0 i p of
        None \<Rightarrow> None
      | Some p1 \<Rightarrow> Some (log_print_sift_trace enc pc0 i p1))"

definition execute_insn ::
  "encoding \<Rightarrow> 'a processor \<Rightarrow> reg_t \<Rightarrow> 'a insn_fetch_t \<Rightarrow> (reg_t, 'a) result" where
  "execute_insn enc p0 pc0 fetch =
     (let p = commit_log_stash_privilege (commit_log_reset p0)
      in case func fetch p (insn fetch) pc0 of
          (Inr npc, p1) \<Rightarrow>
            if npc \<noteq> PC_SERIALIZE_BEFORE enc then
              (let p2 = record_executed_insn (insn_bits (insn fetch)) p1
               in case (if log_commits_enabled p2
                        then commit_log_print_insn pc0 (insn fetch) p2 else Some p2) of
                    None \<Rightarrow> Abort
                  | Some p3 \<Rightarrow>
                      Return npc (update_histogram enc pc0
                        (log_print_sift_trace enc pc0 (insn fetch)
                           (log_print_mem_access pc0 (insn fetch) p3))))
            else Return npc (update_histogram enc pc0 p1)
        | (Inl WaitForInterrupt, p1) \<Rightarrow>
            (let p2 = record_executed_insn (insn_bits (insn fetch)) p1
             in if log_commits_enabled p2
                then (case commit_and_trace enc pc0 (insn fetch) p2 of
                        None \<Rightarrow> Abort
                      | Some p3 \<Rightarrow> Throw WaitForInterrupt p3)
                else Throw WaitForInterrupt p2)
        | (Inl (Trap t), p1) \<Rightarrow>
            if is_mem_trap t \<and> log_commits_enabled p1
               \<and> list_ex (\<lambda>item. fst item AND 3 = 3) (log_reg_write p1)
            then (case commit_and_trace enc pc0 (insn fetch)
                         (record_executed_insn (insn_bits (insn fetch)) p1) of
                    None \<Rightarrow> Abort
                  | Some p3 \<Rightarrow> Throw (Trap t) p3)
            else Throw (Trap t) p1
        | (Inl e, p1) \<Rightarrow> Throw e p1)"

section \<open>Fetch/execute loop (\<^verbatim>\<open>processor_t::step\<close>)\<close>

text \<open>
  The collaborators the loop calls, none of them among the files at hand: the interrupt
  check, the two ways to fetch, the links of the instruction cache (entries are named by
  numbers), trap delivery, debug-mode entry and the constructor of the breakpoint trap.
  Each one that can throw returns the exception beside the processor it leaves.
\<close>

record 'a env =
  enc :: encoding
  take_pending_interrupt :: "'a processor \<Rightarrow> signal option \<times> 'a processor"
  load_insn :: "'a processor \<Rightarrow> reg_t \<Rightarrow> (signal + 'a insn_fetch_t) \<times> 'a processor"
  access_icache :: "'a processor \<Rightarrow> reg_t \<Rightarrow> (signal + nat) \<times> 'a processor"
  ic_data :: "'a processor \<Rightarrow> nat \<Rightarrow> 'a insn_fetch_t"
  ic_next :: "'a processor \<Rightarrow> nat \<Rightarrow> nat"
  ic_tag :: "'a processor \<Rightarrow> nat \<Rightarrow> reg_t"
  take_trap :: "trap_t \<Rightarrow> reg_t \<Rightarrow> 'a processor \<Rightarrow> 'a processor"
  enter_debug_mode :: "dcsr_cause_t \<Rightarrow> 'a processor \<Rightarrow> 'a processor"
  trap_breakpoint :: "'a processor \<Rightarrow> reg_t \<Rightarrow> trap_t"

definition slow_path :: "'a processor \<Rightarrow> bool" where
  "slow_path p \<longleftrightarrow> debug p \<or> single_step p \<noteq> STEP_NONE \<or> debug_mode p"

definition disasm :: "insn_t \<Rightarrow> 'a processor \<Rightarrow> 'a processor" where
  "disasm i p = p\<lparr>stderr_out := stderr_out p @ [DisasmLine i]\<rparr>"

text \<open>
  How the \<^verbatim>\<open>try\<close> block of one batch ends: it runs to its end with \<^verbatim>\<open>instret\<close>
  instructions retired, or an exception leaves it with the locals \<^verbatim>\<open>instret\<close> and
  \<^verbatim>\<open>pc\<close> as they stand, or the process aborts.
\<close>

datatype 'a batch =
  Normal nat "'a processor"
  | Caught signal nat reg_t "'a processor"
  | Died

text \<open>
  The branch of \<^verbatim>\<open>advance_pc()\<close> for an invalid pc, which always leaves the enclosing
  loop: \<^verbatim>\<open>PC_SERIALIZE_BEFORE\<close> sets \<^verbatim>\<open>serialized\<close>, \<^verbatim>\<open>PC_SERIALIZE_AFTER\<close> counts the
  instruction, any other value aborts. The other branch (store the pc, count the
  instruction, go on) is written out in each loop.
\<close>

definition advance_pc_invalid :: "encoding \<Rightarrow> reg_t \<Rightarrow> nat \<Rightarrow> 'a processor \<Rightarrow> 'a batch" where
  "advance_pc_invalid e npc instret p =
     (if npc = PC_SERIALIZE_BEFORE e then Normal instret (p\<lparr>serialized := True\<rparr>)
      else if npc = PC_SERIALIZE_AFTER e then Normal (instret + 1) p
      else Died)"

text \<open>
  One pass of a loop either goes on, with the next pc and the processor after
  \<^verbatim>\<open>state.pc = pc; instret++\<close>, or leaves the \<^verbatim>\<open>try\<close> block.
\<close>

datatype 'a pass =
  Again reg_t "'a processor"
  | Exit "'a batch"

text \<open>
  The body of the slow path's loop: the single-step checks, the fetch, the disassembly
  in interactive mode, the execution, \<^verbatim>\<open>advance_pc()\<close>.
\<close>

definition slow_pass :: "'a env \<Rightarrow> nat \<Rightarrow> reg_t \<Rightarrow> 'a processor \<Rightarrow> 'a pass" where
  "slow_pass ev instret pc0 p =
     (let stepped = (\<not> serialized p \<and> single_step p = STEP_STEPPED);
          p1 = (if stepped then p\<lparr>single_step := STEP_NONE\<rparr> else p)
      in if stepped \<and> \<not> debug_mode p1
         then Exit (Normal instret (enter_debug_mode ev DCSR_CAUSE_STEP p1))
         else
           (let p2 = (if single_step p1 = STEP_STEPPING
                      then p1\<lparr>single_step := STEP_STEPPED\<rparr> else p1)
            in case load_insn ev p2 pc0 of
                 (Inl e, p3) \<Rightarrow> Exit (Caught e instret pc0 p3)
               | (Inr fetch, p3) \<Rightarrow>
                   (let p4 = (if debug p3 \<and> \<not> serialized p3
                              then disasm (insn fetch) p3 else p3)
                    in case execute_insn (enc ev) p4 pc0 fetch of
                         Abort \<Rightarrow> Exit Died
                       | Throw e p5 \<Rightarrow> Exit (Caught e instret pc0 p5)
                       | Return npc p5 \<Rightarrow>
                           if invalid_pc (enc ev) npc
                           then Exit (advance_pc_invalid (enc ev) npc instret p5)
                           else Again npc (p5\<lparr>pc := npc\<rparr>))))"

text \<open>The slow path: \<^verbatim>\<open>while (instret < n)\<close>, one instruction per pass.\<close>

function slow_loop :: "'a env \<Rightarrow> nat \<Rightarrow> nat \<Rightarrow> reg_t \<Rightarrow> 'a processor \<Rightarrow> 'a batch" where
  "slow_loop ev n instret pc0 p =
     (if instret < n then
        (case slow_pass ev instret pc0 p of
           Exit b \<Rightarrow> b
         | Again npc p1 \<Rightarrow> slow_loop ev n (instret + 1) npc p1)
      else Normal instret p)"
  by pat_completeness auto
termination
  by (relation "measure (\<lambda>(ev, n, instret, pc0, p). n - instret)") auto

declare slow_loop.simps [simp del]

text \<open>
  The fast path. The \<^verbatim>\<open>for\<close> statement follows the links of the instruction cache; it
  is left when the next entry's tag is not the next pc or when the instruction just
  executed is the last of the quota, and then \<^verbatim>\<open>advance_pc()\<close> runs. The statement is
  only entered under \<^verbatim>\<open>instret < n\<close>, which its body restates to make the recursion
  total.
\<close>

datatype 'a for_exit =
  Break nat reg_t "'a processor"
  | ForCaught signal nat reg_t "'a processor"
  | ForDied

datatype 'a for_pass =
  ForAgain reg_t nat "'a processor"
  | ForExit "'a for_exit"

definition icache_pass ::
  "'a env \<Rightarrow> nat \<Rightarrow> nat \<Rightarrow> reg_t \<Rightarrow> nat \<Rightarrow> 'a processor \<Rightarrow> 'a for_pass" where
  "icache_pass ev n instret pc0 ic_entry p =
     (let fetch = ic_data ev p ic_entry
      in case execute_insn (enc ev) p pc0 fetch of
           Abort \<Rightarrow> ForExit ForDied
         | Throw e p1 \<Rightarrow> ForExit (ForCaught e instret pc0 p1)
         | Return npc p1 \<Rightarrow>
             (let ic_entry1 = ic_next ev p1 ic_entry
              in if ic_tag ev p1 ic_entry1 \<noteq> npc then ForExit (Break instret npc p1)
                 else if instret + 1 = n then ForExit (Break instret npc p1)
                 else if \<not> instret < n then ForExit (Break instret npc p1)
                 else ForAgain npc ic_entry1 (p1\<lparr>pc := npc\<rparr>)))"

lemma icache_pass_again:
  "icache_pass ev n instret pc0 ic_entry p = ForAgain npc ic_entry1 p1 \<Longrightarrow> instret + 1 < n"
  by (auto simp add: icache_pass_def Let_def split: result.splits if_splits)

function icache_for :: "'a env \<Rightarrow> nat \<Rightarrow> nat \<Rightarrow> reg_t \<Rightarrow> nat \<Rightarrow> 'a processor \<Rightarrow> 'a for_exit" where
  "icache_for ev n instret pc0 ic_entry p =
     (case icache_pass ev n instret pc0 ic_entry p of
        ForExit x \<Rightarrow> x
      | ForAgain npc ic_entry1 p1 \<Rightarrow> icache_for ev n (instret + 1) npc ic_entry1 p1)"
  by pat_completeness auto
termination
  by (relation "measure (\<lambda>(ev, n, instret, pc0, ic_entry, p). n - instret)")
     (auto dest: icache_pass_again)

declare icache_for.simps [simp del]

lemma icache_pass_exit:
  "icache_pass ev n instret pc0 ic_entry p = ForExit (Break i npc p2) \<Longrightarrow> i = instret"
  by (auto simp add: icache_pass_def Let_def split: result.splits if_splits)

text \<open>The count a \<^verbatim>\<open>for\<close> statement is left with is at least the one it was entered with.\<close>

lemma icache_for_instret:
  "icache_for ev n instret pc0 ic_entry p = Break i npc p2 \<Longrightarrow> instret \<le> i"
proof (induction ev n instret pc0 ic_entry p rule: icache_for.induct)
  case (1 ev n instret pc0 ic_entry p)
  note unfold = icache_for.simps [of ev n instret pc0 ic_entry p]
  show ?case
  proof (cases "icache_pass ev n instret pc0 ic_entry p")
    case (ForExit x)
    with "1.prems" unfold show ?thesis by (auto dest: icache_pass_exit)
  next
    case (ForAgain npc1 ic_entry1 p1)
    with "1.prems" unfold
    have "icache_for ev n (instret + 1) npc1 ic_entry1 p1 = Break i npc p2" by simp
    with "1.IH" [OF ForAgain] show ?thesis by simp
  qed
qed

function fast_loop :: "'a env \<Rightarrow> nat \<Rightarrow> nat \<Rightarrow> reg_t \<Rightarrow> 'a processor \<Rightarrow> 'a batch" where
  "fast_loop ev n instret pc0 p =
     (if instret < n then
        (case access_icache ev p pc0 of
           (Inl e, p1) \<Rightarrow> Caught e instret pc0 p1
         | (Inr ic_entry, p1) \<Rightarrow>
             (case icache_for ev n instret pc0 ic_entry p1 of
                ForDied \<Rightarrow> Died
              | ForCaught e i pc1 p2 \<Rightarrow> Caught e i pc1 p2
              | Break i npc p2 \<Rightarrow>
                  if invalid_pc (enc ev) npc then advance_pc_invalid (enc ev) npc i p2
                  else fast_loop ev n (i + 1) npc (p2\<lparr>pc := npc\<rparr>)))
      else Normal instret p)"
  by pat_completeness auto
termination
  by (relation "measure (\<lambda>(ev, n, instret, pc0, p). n - instret)")
     (auto dest: icache_for_instret)

declare fast_loop.simps [simp del]

text \<open>
  The \<^verbatim>\<open>try\<close> block of one batch: \<^verbatim>\<open>instret\<close> starts at 0 and \<^verbatim>\<open>pc\<close> at the state's
  pc, read before the interrupt check.
\<close>

definition try_block :: "'a env \<Rightarrow> nat \<Rightarrow> 'a processor \<Rightarrow> 'a batch" where
  "try_block ev n p =
     (let instret = 0; pc0 = pc p
      in case take_pending_interrupt ev p of
           (Some e, p1) \<Rightarrow> Caught e instret pc0 p1
         | (None, p1) \<Rightarrow>
             if slow_path p1 then slow_loop ev n instret pc0 p1
             else fast_loop ev n instret pc0 p1)"

text \<open>
  What follows the \<^verbatim>\<open>try\<close> statement: the loop goes on to the counters with a quota
  \<^verbatim>\<open>n\<close> and a count \<^verbatim>\<open>instret\<close>; or the \<^verbatim>\<open>break\<close> of \<^verbatim>\<open>advance_pc()\<close> inside the
  trigger handler leaves \<^verbatim>\<open>while (n > 0)\<close> at once; or an exception thrown inside that
  handler leaves \<^verbatim>\<open>step\<close>; or the process aborts.
\<close>

datatype 'a handled =
  Continue nat nat "'a processor"
  | Leave "'a processor"
  | Escape signal "'a processor"
  | HandlerDied

definition trigger_action :: "'a env \<Rightarrow> action_t \<Rightarrow> reg_t \<Rightarrow> nat \<Rightarrow> nat \<Rightarrow> reg_t \<Rightarrow> 'a processor \<Rightarrow> 'a handled" where
  "trigger_action ev action address n instret pc0 p =
     (case action of
        ACTION_DEBUG_MODE \<Rightarrow> Continue n instret (enter_debug_mode ev DCSR_CAUSE_HWBP p)
      | ACTION_DEBUG_EXCEPTION \<Rightarrow>
          Continue n instret (take_trap ev (trap_breakpoint ev p address) pc0 p)
      | ACTION_OTHER \<Rightarrow> HandlerDied)"

definition catch_block :: "'a env \<Rightarrow> nat \<Rightarrow> 'a batch \<Rightarrow> 'a handled" where
  "catch_block ev n b =
     (case b of
        Died \<Rightarrow> HandlerDied
      | Normal instret p \<Rightarrow> Continue n instret p
      | Caught (Trap t) instret pc0 p \<Rightarrow>
          (let p1 = take_trap ev t pc0 p
           in Continue instret instret
                (if single_step p1 = STEP_STEPPED
                 then enter_debug_mode ev DCSR_CAUSE_STEP (p1\<lparr>single_step := STEP_NONE\<rparr>)
                 else p1))
      | Caught (Matched action address) instret pc0 p \<Rightarrow>
          if matched_trigger p then
            (case load_insn ev p pc0 of
               (Inl e, p1) \<Rightarrow> Escape e p1
             | (Inr fetch, p1) \<Rightarrow>
                 (case execute_insn (enc ev) p1 pc0 fetch of
                    Abort \<Rightarrow> HandlerDied
                  | Throw e p2 \<Rightarrow> Escape e p2
                  | Return npc p2 \<Rightarrow>
                      if invalid_pc (enc ev) npc then
                        (case advance_pc_invalid (enc ev) npc instret p2 of
                           Normal i p3 \<Rightarrow> Leave p3
                         | Caught e i pc1 p3 \<Rightarrow> Escape e p3
                         | Died \<Rightarrow> HandlerDied)
                      else trigger_action ev action address n (instret + 1) npc
                             (p2\<lparr>pc := npc, matched_trigger := False\<rparr>)))
          else trigger_action ev action address n instret pc0 p
      | Caught TrapDebugMode instret pc0 p \<Rightarrow>
          Continue n instret (enter_debug_mode ev DCSR_CAUSE_SWBP p)
      | Caught WaitForInterrupt instret pc0 p \<Rightarrow> Continue (instret + 1) (instret + 1) p)"

text \<open>
  Modelled from the spec: \<^verbatim>\<open>bump\<close> of the two counter registers, whose class is declared
  outside the files at hand. "The retired-instruction counter and the cycle counter are
  both incremented by the number of instructions actually retired in that batch"; the
  registers are 64 bits wide.
\<close>

definition bump_counters :: "nat \<Rightarrow> 'a processor \<Rightarrow> 'a processor" where
  "bump_counters instret p =
     p\<lparr>minstret := minstret p + of_nat instret, mcycle := mcycle p + of_nat instret\<rparr>"

text \<open>How a call of \<^verbatim>\<open>step\<close> ends.\<close>

datatype 'a step_exit =
  Finished "'a processor"
  | Uncaught signal "'a processor"
  | Aborted

text \<open>
  \<^verbatim>\<open>while (n > 0)\<close>. A batch may retire nothing, so the loop need not end: each batch
  costs one unit of fuel, and \<^verbatim>\<open>None\<close> says that the fuel ran out first.
\<close>

fun step_loop :: "'a env \<Rightarrow> nat \<Rightarrow> nat \<Rightarrow> 'a processor \<Rightarrow> 'a step_exit option" where
  "step_loop ev fuel n p =
     (if n = 0 then Some (Finished p)
      else case fuel of
             0 \<Rightarrow> None
           | Suc fuel1 \<Rightarrow>
               (case catch_block ev n (try_block ev n p) of
                  HandlerDied \<Rightarrow> Some Aborted
                | Escape e p1 \<Rightarrow> Some (Uncaught e p1)
                | Leave p1 \<Rightarrow> Some (Finished p1)
                | Continue n1 instret p1 \<Rightarrow>
                    step_loop ev fuel1 (n1 - instret) (bump_counters instret p1)))"

definition halt_check :: "'a env \<Rightarrow> 'a processor \<Rightarrow> 'a processor" where
  "halt_check ev p =
     (if \<not> debug_mode p then
        (if halt_request p = HR_REGULAR then enter_debug_mode ev DCSR_CAUSE_DEBUGINT p
         else if halt_request p = HR_GROUP then enter_debug_mode ev DCSR_CAUSE_GROUP p
         else if dcsr_halt p then enter_debug_mode ev DCSR_CAUSE_HALT p
         else p)
      else p)"

definition step :: "'a env \<Rightarrow> nat \<Rightarrow> nat \<Rightarrow> 'a processor \<Rightarrow> 'a step_exit option" where
  "step ev fuel n p = step_loop ev fuel n (halt_check ev p)"

section \<open>The handler of \<^verbatim>\<open>vssrl.vv\<close>\<close>

text \<open>
  The macros the handler is written with are declared outside the files at hand and are
  parameters: \<^verbatim>\<open>get_vround_mode\<close>, \<^verbatim>\<open>INT_ROUNDING\<close> (which updates \<^verbatim>\<open>val\<close>), and
  \<^verbatim>\<open>VI_VV_ULOOP\<close>, which runs the body it is given over the elements, at the element
  width \<^verbatim>\<open>sew\<close>, on the unsigned operands \<^verbatim>\<open>vs1\<close> and \<^verbatim>\<open>vs2\<close>, and stores what the body
  assigns to \<^verbatim>\<open>vd\<close>; it returns an exception if it throws.
\<close>

record ('a, 'r) vector_macros =
  get_vround_mode :: "'a processor \<Rightarrow> 'r"
  INT_ROUNDING :: "128 word \<Rightarrow> 'r \<Rightarrow> nat \<Rightarrow> 128 word"
  VI_VV_ULOOP :: "(nat \<Rightarrow> reg_t \<Rightarrow> reg_t \<Rightarrow> reg_t) \<Rightarrow> 'a processor \<Rightarrow> signal option \<times> 'a processor"

text \<open>
  The body of the loop: \<^verbatim>\<open>sh\<close> is \<^verbatim>\<open>vs1 & (sew - 1)\<close>, \<^verbatim>\<open>val\<close> is \<^verbatim>\<open>vs2\<close> at 128 bits,
  rounded; the shifted value is stored in an element of \<^verbatim>\<open>sew\<close> bits.
\<close>

definition vssrl_vv_body :: "('a, 'r) vector_macros \<Rightarrow> 'r \<Rightarrow> nat \<Rightarrow> reg_t \<Rightarrow> reg_t \<Rightarrow> reg_t" where
  "vssrl_vv_body m xrm sew vs1 vs2 =
     (let sh = unat (vs1 AND (of_nat sew - 1));
          val = (ucast vs2 :: 128 word);
          val = INT_ROUNDING m val xrm sh
      in take_bit sew (ucast (drop_bit sh val)))"

definition bump_mhpmcounter :: "nat \<Rightarrow> reg_t \<Rightarrow> 'a processor \<Rightarrow> 'a processor" where
  "bump_mhpmcounter k howmuch p = p\<lparr>mhpmcounter := (mhpmcounter p)(k := mhpmcounter p k + howmuch)\<rparr>"

definition vssrl_vv :: "('a, 'r) vector_macros \<Rightarrow> 'a processor \<Rightarrow> signal option \<times> 'a processor" where
  "vssrl_vv m p =
     (let xrm = get_vround_mode m p
      in case VI_VV_ULOOP m (vssrl_vv_body m xrm) p of
           (Some e, p1) \<Rightarrow> (Some e, p1)
         | (None, p1) \<Rightarrow> (None, bump_mhpmcounter 10 1 p1))"

section \<open>Example configurations\<close>

text \<open>
  Concrete values for the examples below: the sentinels and masks as the RISC-V
  simulator and the vector extension define them, and a processor at rest with empty
  logs, 64-bit registers and commit logging on, around a given value for the part the
  handlers own.
\<close>

definition rvv_encoding :: encoding where
  "rvv_encoding =
     \<lparr>PC_SERIALIZE_BEFORE = 3, PC_SERIALIZE_AFTER = 5, invalid_pc = (\<lambda>pc0. pc0 AND 1 = 1),
       RISCV_ENABLE_HISTOGRAM = False,
       MASK_VMV_V_X = 0xfff0707f, MATCH_VMV_V_X = 0x5e004057,
       MASK_VSETVLI = 0x8000707f, MATCH_VSETVLI = 0x7057,
       MASK_VSETIVLI = 0xc000707f, MATCH_VSETIVLI = 0xc0007057,
       MASK_VSETVL = 0xfe00707f, MATCH_VSETVL = 0x80007057\<rparr>"

definition idle_processor :: "'a \<Rightarrow> 'a processor" where
  "idle_processor x =
     \<lparr>pc = 0x80000000, prv = 3, minstret = 0, mcycle = 0, single_step = STEP_NONE,
       debug_mode = False, serialized = False, dcsr_halt = False,
       last_inst_priv = 3, last_inst_xlen = 64, last_inst_flen = 64,
       log_reg_write = [], log_mem_read = [], log_mem_write = [],
       log_addr = (\<lambda>i. 0), log_reg_addr = (\<lambda>i. 0), log_addr_valid = 0,
       log_is_branch = False, log_is_branch_taken = False, log_writer = [],
       core_id = 0, xlen = 64, flen = 64, debug = False, halt_request = HR_NONE,
       log_commits_enabled = True, log_file = [], addr_history = Map.empty,
       pc_histogram = (\<lambda>a. 0),
       VU_VLEN = 128, VU_vsew = 8, VU_vflmul = 1, VU_vl = 0, VU_vtype = 0,
       matched_trigger = False, sift_executed_insn = 0, stderr_out = [],
       mhpmcounter = (\<lambda>k. 0), arch = x\<rparr>"

text \<open>
  A segmented load of three fields into the registers \<open>vd0\<close>, \<open>vd0 + 1\<close>, \<open>vd0 + 2\<close>:
  twelve addresses, four bytes apart, whose destinations cycle through the three
  registers, and the three vector-register entries of the write log.
\<close>

definition seg3_load :: "reg_t \<Rightarrow> 32 word \<Rightarrow> unit processor" where
  "seg3_load vd0 w =
     (idle_processor ())
       \<lparr>log_reg_write := [(push_bit 4 vd0 OR 2, 0), (push_bit 4 (vd0 + 1) OR 2, 0),
                          (push_bit 4 (vd0 + 2) OR 2, 0)],
        log_addr := (\<lambda>j. 0x1000 + 4 * of_nat j),
        log_reg_addr := (\<lambda>j. vd0 + of_nat (j mod 3)),
        log_addr_valid := 12,
        sift_executed_insn := w\<rparr>"

text \<open>
  Two handlers that throw a load page fault: a vector load that has logged a
  vector-generic write when it faults, and a scalar load that has logged nothing.
\<close>

definition faulting_vle32 :: "unit insn_fetch_t" where
  "faulting_vle32 =
     \<lparr>insn = \<lparr>insn_bits = 0x02056407, insn_length = 4\<rparr>,
       func = (\<lambda>p i a. (Inl (Trap \<lparr>is_mem_trap = True, cause = 13, tval = 0x2000\<rparr>),
                         p\<lparr>log_reg_write := [(3, 0)]\<rparr>))\<rparr>"

definition faulting_ld :: "unit insn_fetch_t" where
  "faulting_ld =
     \<lparr>insn = \<lparr>insn_bits = 0x00053503, insn_length = 4\<rparr>,
       func = (\<lambda>p i a. (Inl (Trap \<lparr>is_mem_trap = True, cause = 13, tval = 0x2000\<rparr>), p))\<rparr>"

text \<open>
  Macros for the example: rounding to nearest, ties up, and a loop over the pairs of
  operands that the first component of the handler-owned part holds, at width 8,
  storing the results in the second component.
\<close>

definition toy_macros :: "((reg_t \<times> reg_t) list \<times> reg_t list, unit) vector_macros" where
  "toy_macros =
     \<lparr>get_vround_mode = (\<lambda>p. ()),
       INT_ROUNDING = (\<lambda>val xrm gb. val + drop_bit 1 (push_bit gb 1)),
       VI_VV_ULOOP = (\<lambda>body p.
          (None, p\<lparr>arch := (fst (arch p), map (\<lambda>(vs1, vs2). body 8 vs1 vs2) (fst (arch p)))\<rparr>))\<rparr>"

text \<open>
  A small machine for the examples of the loop. The handler-owned part is the number of
  instructions executed so far; instructions are four bytes long; the cache holds every
  instruction, entry \<open>e\<close> for the word at \<open>4 * (0x20000000 + e)\<close>, linked in address
  order; no interrupt is pending; traps are delivered to \<^verbatim>\<open>0x80000100\<close> and debug mode
  is entered at \<^verbatim>\<open>0x800\<close>. One handler serves every instruction: it throws the signal
  that \<open>stop\<close> names for the pc, if any, and otherwise counts the instruction and
  returns the address of the next word.
\<close>

definition toy_fetch :: "(reg_t \<Rightarrow> signal option) \<Rightarrow> nat insn_fetch_t" where
  "toy_fetch stop =
     \<lparr>insn = \<lparr>insn_bits = 0x00000013, insn_length = 4\<rparr>,
       func = (\<lambda>p i a. case stop a of
                          Some e \<Rightarrow> (Inl e, p)
                        | None \<Rightarrow> (Inr (push_bit 2 (drop_bit 2 a + 1)), p\<lparr>arch := arch p + 1\<rparr>))\<rparr>"

definition toy_env :: "(reg_t \<Rightarrow> signal option) \<Rightarrow> nat env" where
  "toy_env stop =
     \<lparr>enc = rvv_encoding,
       take_pending_interrupt = (\<lambda>p. (None, p)),
       load_insn = (\<lambda>p a. (Inr (toy_fetch stop), p)),
       access_icache = (\<lambda>p a. (Inr (unat (drop_bit 2 a - 0x20000000)), p)),
       ic_data = (\<lambda>p e. toy_fetch stop),
       ic_next = (\<lambda>p e. e + 1),
       ic_tag = (\<lambda>p e. push_bit 2 (0x20000000 + of_nat e)),
       take_trap = (\<lambda>t a p. p\<lparr>pc := 0x80000100\<rparr>),
       enter_debug_mode = (\<lambda>c p. p\<lparr>debug_mode := True, pc := 0x800\<rparr>),
       trap_breakpoint = (\<lambda>p a. \<lparr>is_mem_trap = True, cause = 3, tval = a\<rparr>)\<rparr>"


definition wfi_at :: "reg_t \<Rightarrow> reg_t \<Rightarrow> signal option" where
  "wfi_at b a = (if a = b then Some WaitForInterrupt else None)"

section \<open>Auxiliary notions for the proofs\<close>

text \<open>Writing a value into the five-bit field at position \<open>s\<close>: what the three updates share.\<close>

definition put_field :: "nat \<Rightarrow> 32 word \<Rightarrow> 32 word \<Rightarrow> 32 word" where
  "put_field s g w = (w AND NOT (push_bit s (mask 5))) OR push_bit s g"


text \<open>
  The part of the processor that tracing never touches: what the handlers and the MMU
  own, the two counters, the pc and the flags that steer the loop.
\<close>

definition control ::
  "'a processor \<Rightarrow> 'a \<times> reg_t \<times> reg_t \<times> reg_t \<times> bool \<times> step_t \<times> bool \<times> bool \<times> bool" where
  "control p =
     (arch p, minstret p, mcycle p, pc p, serialized p, single_step p, debug_mode p, debug p,
      matched_trigger p)"

text \<open>
  An observer \<open>cnt\<close> of the handler-owned part counts instructions. Between two
  states, \<open>k\<close> instructions were retired when the observer went up by \<open>k\<close> and the two
  counter registers were not written.
\<close>

definition retired :: "('a \<Rightarrow> nat) \<Rightarrow> nat \<Rightarrow> 'a processor \<Rightarrow> 'a processor \<Rightarrow> bool" where
  "retired cnt k p q \<longleftrightarrow>
     cnt (arch q) = cnt (arch p) + k \<and> minstret q = minstret p \<and> mcycle q = mcycle p"

text \<open>
  A handler is counted by \<open>cnt\<close> when every call that returns a next pc other than
  \<^verbatim>\<open>PC_SERIALIZE_BEFORE\<close> retires one instruction, and every other call retires none.
\<close>

definition counted :: "encoding \<Rightarrow> ('a \<Rightarrow> nat) \<Rightarrow> 'a insn_fetch_t \<Rightarrow> bool" where
  "counted cs cnt f \<longleftrightarrow>
     (\<forall>p a. case func f p (insn f) a of
          (Inr npc, p1) \<Rightarrow> retired cnt (if npc = PC_SERIALIZE_BEFORE cs then 0 else 1) p p1
        | (Inl e, p1) \<Rightarrow> retired cnt 0 p p1)"

text \<open>
  The collaborators respect the count: \<^verbatim>\<open>PC_SERIALIZE_BEFORE\<close> is an invalid pc and no
  tag of the instruction cache; the interrupt check, the fetches, debug-mode entry and
  trap delivery retire nothing; every handler that a fetch yields is counted.
\<close>

definition counts :: "'a env \<Rightarrow> ('a \<Rightarrow> nat) \<Rightarrow> bool" where
  "counts ev cnt \<longleftrightarrow>
     invalid_pc (enc ev) (PC_SERIALIZE_BEFORE (enc ev))
     \<and> (\<forall>p e. ic_tag ev p e \<noteq> PC_SERIALIZE_BEFORE (enc ev))
     \<and> (\<forall>p. retired cnt 0 p (snd (take_pending_interrupt ev p)))
     \<and> (\<forall>p a. retired cnt 0 p (snd (load_insn ev p a)))
     \<and> (\<forall>p a f. fst (load_insn ev p a) = Inr f \<longrightarrow> counted (enc ev) cnt f)
     \<and> (\<forall>p a. retired cnt 0 p (snd (access_icache ev p a)))
     \<and> (\<forall>p e. counted (enc ev) cnt (ic_data ev p e))
     \<and> (\<forall>c p. retired cnt 0 p (enter_debug_mode ev c p))
     \<and> (\<forall>t a p. retired cnt 0 p (take_trap ev t a p))"

text \<open>What a batch entered with \<open>instret\<close> retired instructions owes to the count.\<close>

definition batch_counted :: "('a \<Rightarrow> nat) \<Rightarrow> nat \<Rightarrow> nat \<Rightarrow> 'a processor \<Rightarrow> 'a batch \<Rightarrow> bool" where
  "batch_counted cnt n instret p b =
     (case b of
        Normal i q \<Rightarrow> instret \<le> i \<and> i \<le> n \<and> retired cnt (i - instret) p q
      | Caught e i a q \<Rightarrow> instret \<le> i \<and> i < n \<and> retired cnt (i - instret) p q
      | Died \<Rightarrow> True)"

definition for_counted :: "encoding \<Rightarrow> ('a \<Rightarrow> nat) \<Rightarrow> nat \<Rightarrow> nat \<Rightarrow> 'a processor \<Rightarrow> 'a for_exit \<Rightarrow> bool" where
  "for_counted cs cnt n instret p x =
     (case x of
        Break i npc q \<Rightarrow>
          instret \<le> i \<and> i < n
          \<and> retired cnt (i - instret + (if npc = PC_SERIALIZE_BEFORE cs then 0 else 1)) p q
      | ForCaught e i a q \<Rightarrow> instret \<le> i \<and> i < n \<and> retired cnt (i - instret) p q
      | ForDied \<Rightarrow> True)"

section \<open>Access-period tracker: properties\<close>

lemma is_vector_insn_iff:
  "is_vector_insn i \<longleftrightarrow>
     insn_bits i AND 0x7f = 0x57 \<or> insn_bits i AND 0x7f = 0x07 \<or> insn_bits i AND 0x7f = 0x27"
  by (simp add: is_vector_insn_def VEC_ARITH_MATCH_def VEC_LOAD_MATCH_def VEC_STORE_MATCH_def Let_def)

lemma store_fold_other:
  "A \<notin> set xs \<Longrightarrow> foldl (store_access c v) h xs A = h A"
  by (induction xs arbitrary: h) (auto simp add: store_access_def split: option.splits)

lemma store_fold_hit:
  "A \<in> set xs \<Longrightarrow> h A = Some e \<Longrightarrow>
     foldl (store_access c v) h xs A = Some (e\<lparr>last_access := c\<rparr>)"
proof (induction xs arbitrary: h e)
  case Nil
  then show ?case by simp
next
  case (Cons x xs)
  show ?case
  proof (cases "x = A")
    case True
    with Cons.prems have h1: "store_access c v h x A = Some (e\<lparr>last_access := c\<rparr>)"
      by (simp add: store_access_def set_last_access_def)
    show ?thesis
    proof (cases "A \<in> set xs")
      case True
      from Cons.IH [where h = "store_access c v h x" and e = "e\<lparr>last_access := c\<rparr>", OF True h1]
      show ?thesis by simp
    next
      case False
      with h1 show ?thesis by (simp add: store_fold_other)
    qed
  next
    case False
    with Cons.prems have m: "A \<in> set xs" and h1: "store_access c v h x A = Some e"
      by (auto simp add: store_access_def split: option.splits)
    from Cons.IH [where h = "store_access c v h x" and e = e, OF m h1] show ?thesis by simp
  qed
qed

lemma load_fold_other:
  "A \<notin> set xs \<Longrightarrow> fst (foldl (load_access c v) he xs) A = fst he A"
  by (induction xs arbitrary: he) (auto simp add: load_access_def Let_def split: option.splits)

lemma load_fold_once:
  assumes "A \<notin> set ys" and "A \<notin> set zs" and "fst he A = Some e"
  shows "fst (foldl (load_access c v) he (ys @ [A] @ zs)) A
           = Some (e\<lparr>period_list := period_list e @ [\<lparr>period = c - last_access e, is_vector = v\<rparr>],
                     last_access := c\<rparr>)"
proof -
  let ?he1 = "foldl (load_access c v) he ys"
  have "fst ?he1 A = Some e" using assms(1,3) by (simp add: load_fold_other)
  then have "fst (load_access c v ?he1 A) A
      = Some (e\<lparr>period_list := period_list e @ [\<lparr>period = c - last_access e, is_vector = v\<rparr>],
                 last_access := c\<rparr>)"
    by (simp add: load_access_def Let_def set_last_access_def)
  then show ?thesis using assms(2) by (simp add: load_fold_other)
qed

text \<open>
  C7. Let the address \<open>A\<close> have a history entry. A read of \<open>A\<close> appends one interval, the
  current count minus the entry's last access, and then sets the last access to the
  current count; a write to \<open>A\<close> only sets the last access. Both hold of the loop bodies and
  of \<^verbatim>\<open>log_print_mem_access\<close> itself: run on an instruction whose store log names \<open>A\<close>
  and whose load log does not, it changes nothing of the entry but the last access; run
  on an instruction that reads \<open>A\<close> once and does not write it, it appends the one
  interval. When an address without an entry is read at count 10 and again at count 25,
  its interval list is empty after the first read and holds the single value 15 after
  the second; with a write at count 20 in between, the list is still empty after the
  write and holds the single value 5 after the second read.
\<close>

theorem access_period_tracker:
  assumes "h A = Some e"
    and "addr_history pw A = Some e"
    and "A \<in> fst ` set (log_mem_write pw)" and "A \<notin> fst ` set (log_mem_read pw)"
    and "addr_history pr A = Some e"
    and "A \<notin> fst ` set (log_mem_write pr)"
    and "map fst (log_mem_read pr) = ys @ [A] @ zs" and "A \<notin> set ys" and "A \<notin> set zs"
    and "addr_history p A = None"
  shows "fst (load_access count vec (h, err) A) =
           h(A \<mapsto> e\<lparr>period_list := period_list e @ [\<lparr>period = count - last_access e, is_vector = vec\<rparr>],
                     last_access := count\<rparr>)
       \<and> store_access count vec h A = h(A \<mapsto> e\<lparr>last_access := count\<rparr>)
       \<and> addr_history (log_print_mem_access pcw iw pw) A = Some (e\<lparr>last_access := minstret pw\<rparr>)
       \<and> addr_history (log_print_mem_access pcr ir pr) A
           = Some (e\<lparr>period_list := period_list e @
                        [\<lparr>period = minstret pr - last_access e, is_vector = is_vector_insn ir\<rparr>],
                     last_access := minstret pr\<rparr>)
       \<and> (let p1 = log_print_mem_access pca ia
                       (p\<lparr>minstret := 10, log_mem_read := [(A, va, sa)], log_mem_write := []\<rparr>);
               p2 = log_print_mem_access pcb ib
                       (p1\<lparr>minstret := 25, log_mem_read := [(A, vb, sb)], log_mem_write := []\<rparr>)
           in map_option period_list (addr_history p1 A) = Some []
              \<and> map_option (map period \<circ> period_list) (addr_history p2 A) = Some [15])
       \<and> (let p1 = log_print_mem_access pca ia
                       (p\<lparr>minstret := 10, log_mem_read := [(A, va, sa)], log_mem_write := []\<rparr>);
               p2 = log_print_mem_access pcc ic
                       (p1\<lparr>minstret := 20, log_mem_read := [], log_mem_write := [(A, vc, szc)]\<rparr>);
               p3 = log_print_mem_access pcb ib
                       (p2\<lparr>minstret := 25, log_mem_read := [(A, vb, sb)], log_mem_write := []\<rparr>)
           in map_option period_list (addr_history p2 A) = Some []
              \<and> map_option last_access (addr_history p2 A) = Some 20
              \<and> map_option (map period \<circ> period_list) (addr_history p3 A) = Some [5])"
proof -
  have body: "fst (load_access count vec (h, err) A) =
           h(A \<mapsto> e\<lparr>period_list := period_list e @ [\<lparr>period = count - last_access e, is_vector = vec\<rparr>],
                     last_access := count\<rparr>)
       \<and> store_access count vec h A = h(A \<mapsto> e\<lparr>last_access := count\<rparr>)"
    using assms(1) by (simp add: load_access_def store_access_def set_last_access_def Let_def)
  have w1: "A \<in> set (map fst (log_mem_write pw))" and w2: "A \<notin> set (map fst (log_mem_read pw))"
    using assms(3,4) by simp_all
  have "foldl (store_access (minstret pw) (is_vector_insn iw)) (addr_history pw) (map fst (log_mem_write pw)) A
      = Some (e\<lparr>last_access := minstret pw\<rparr>)"
    using w1 assms(2) by (rule store_fold_hit)
  then have wr: "addr_history (log_print_mem_access pcw iw pw) A = Some (e\<lparr>last_access := minstret pw\<rparr>)"
    using w2 by (simp add: log_print_mem_access_def Let_def load_fold_other)
  define hone where "hone = foldl (store_access (minstret pr) (is_vector_insn ir)) (addr_history pr)
      (map fst (log_mem_write pr))"
  have r1: "A \<notin> set (map fst (log_mem_write pr))" using assms(6) by simp
  have sfact: "fst (hone, stderr_out pr) A = Some e"
    using r1 assms(5) by (simp add: hone_def store_fold_other)
  have eq: "addr_history (log_print_mem_access pcr ir pr)
      = fst (foldl (load_access (minstret pr) (is_vector_insn ir)) (hone, stderr_out pr)
               (map fst (log_mem_read pr)))"
    by (simp add: log_print_mem_access_def Let_def hone_def)
  have rd: "addr_history (log_print_mem_access pcr ir pr) A
           = Some (e\<lparr>period_list := period_list e @
                        [\<lparr>period = minstret pr - last_access e, is_vector = is_vector_insn ir\<rparr>],
                     last_access := minstret pr\<rparr>)"
    unfolding eq assms(7) using assms(8,9) sfact by (rule load_fold_once)
  have scen: "(let p1 = log_print_mem_access pca ia
                       (p\<lparr>minstret := 10, log_mem_read := [(A, va, sa)], log_mem_write := []\<rparr>);
               p2 = log_print_mem_access pcb ib
                       (p1\<lparr>minstret := 25, log_mem_read := [(A, vb, sb)], log_mem_write := []\<rparr>)
           in map_option period_list (addr_history p1 A) = Some []
              \<and> map_option (map period \<circ> period_list) (addr_history p2 A) = Some [15])
       \<and> (let p1 = log_print_mem_access pca ia
                       (p\<lparr>minstret := 10, log_mem_read := [(A, va, sa)], log_mem_write := []\<rparr>);
               p2 = log_print_mem_access pcc ic
                       (p1\<lparr>minstret := 20, log_mem_read := [], log_mem_write := [(A, vc, szc)]\<rparr>);
               p3 = log_print_mem_access pcb ib
                       (p2\<lparr>minstret := 25, log_mem_read := [(A, vb, sb)], log_mem_write := []\<rparr>)
           in map_option period_list (addr_history p2 A) = Some []
              \<and> map_option last_access (addr_history p2 A) = Some 20
              \<and> map_option (map period \<circ> period_list) (addr_history p3 A) = Some [5])"
    using assms(10)
    by (simp add: load_access_def store_access_def set_last_access_def log_print_mem_access_def
        new_period_info_t_def Let_def)
  from body wr rd scen show ?thesis by blast
qed

theorem access_period_tracker_witness:
  "fst (load_access 25 False ([0x1000 \<mapsto> \<lparr>period_list = [], last_access = 10, vector_flag = False\<rparr>], []) 0x1000) =
           [0x1000 \<mapsto> \<lparr>period_list = [], last_access = 10, vector_flag = False\<rparr>](0x1000 \<mapsto> \<lparr>period_list = [], last_access = 10, vector_flag = False\<rparr>\<lparr>period_list := period_list \<lparr>period_list = [], last_access = 10, vector_flag = False\<rparr> @ [\<lparr>period = 25 - last_access \<lparr>period_list = [], last_access = 10, vector_flag = False\<rparr>, is_vector = False\<rparr>],
                     last_access := 25\<rparr>)
       \<and> store_access 25 False [0x1000 \<mapsto> \<lparr>period_list = [], last_access = 10, vector_flag = False\<rparr>] 0x1000 = [0x1000 \<mapsto> \<lparr>period_list = [], last_access = 10, vector_flag = False\<rparr>](0x1000 \<mapsto> \<lparr>period_list = [], last_access = 10, vector_flag = False\<rparr>\<lparr>last_access := 25\<rparr>)
       \<and> addr_history (log_print_mem_access 0 \<lparr>insn_bits = 0x00B53023, insn_length = 4\<rparr> ((idle_processor ())\<lparr>minstret := 20, addr_history := [0x1000 \<mapsto> \<lparr>period_list = [], last_access = 10, vector_flag = False\<rparr>], log_mem_write := [(0x2000, 0, 8), (0x1000, 7, 8)]\<rparr>)) 0x1000 = Some (\<lparr>period_list = [], last_access = 10, vector_flag = False\<rparr>\<lparr>last_access := minstret ((idle_processor ())\<lparr>minstret := 20, addr_history := [0x1000 \<mapsto> \<lparr>period_list = [], last_access = 10, vector_flag = False\<rparr>], log_mem_write := [(0x2000, 0, 8), (0x1000, 7, 8)]\<rparr>)\<rparr>)
       \<and> addr_history (log_print_mem_access 0 \<lparr>insn_bits = 0x00053503, insn_length = 4\<rparr> ((idle_processor ())\<lparr>minstret := 25, addr_history := [0x1000 \<mapsto> \<lparr>period_list = [], last_access = 10, vector_flag = False\<rparr>], log_mem_read := [(0x2000, 0, 8), (0x1000, 7, 8), (0x3000, 0, 8)]\<rparr>)) 0x1000
           = Some (\<lparr>period_list = [], last_access = 10, vector_flag = False\<rparr>\<lparr>period_list := period_list \<lparr>period_list = [], last_access = 10, vector_flag = False\<rparr> @
                        [\<lparr>period = minstret ((idle_processor ())\<lparr>minstret := 25, addr_history := [0x1000 \<mapsto> \<lparr>period_list = [], last_access = 10, vector_flag = False\<rparr>], log_mem_read := [(0x2000, 0, 8), (0x1000, 7, 8), (0x3000, 0, 8)]\<rparr>) - last_access \<lparr>period_list = [], last_access = 10, vector_flag = False\<rparr>, is_vector = is_vector_insn \<lparr>insn_bits = 0x00053503, insn_length = 4\<rparr>\<rparr>],
                     last_access := minstret ((idle_processor ())\<lparr>minstret := 25, addr_history := [0x1000 \<mapsto> \<lparr>period_list = [], last_access = 10, vector_flag = False\<rparr>], log_mem_read := [(0x2000, 0, 8), (0x1000, 7, 8), (0x3000, 0, 8)]\<rparr>)\<rparr>)
       \<and> (let p1 = log_print_mem_access 0 \<lparr>insn_bits = 0x00053503, insn_length = 4\<rparr>
                       ((idle_processor ())\<lparr>minstret := 10, log_mem_read := [(0x1000, 0, 8)], log_mem_write := []\<rparr>);
               p2 = log_print_mem_access 0 \<lparr>insn_bits = 0x00053503, insn_length = 4\<rparr>
                       (p1\<lparr>minstret := 25, log_mem_read := [(0x1000, 0, 8)], log_mem_write := []\<rparr>)
           in map_option period_list (addr_history p1 0x1000) = Some []
              \<and> map_option (map period \<circ> period_list) (addr_history p2 0x1000) = Some [15])
       \<and> (let p1 = log_print_mem_access 0 \<lparr>insn_bits = 0x00053503, insn_length = 4\<rparr>
                       ((idle_processor ())\<lparr>minstret := 10, log_mem_read := [(0x1000, 0, 8)], log_mem_write := []\<rparr>);
               p2 = log_print_mem_access 0 \<lparr>insn_bits = 0x00B53023, insn_length = 4\<rparr>
                       (p1\<lparr>minstret := 20, log_mem_read := [], log_mem_write := [(0x1000, 0, 8)]\<rparr>);
               p3 = log_print_mem_access 0 \<lparr>insn_bits = 0x00053503, insn_length = 4\<rparr>
                       (p2\<lparr>minstret := 25, log_mem_read := [(0x1000, 0, 8)], log_mem_write := []\<rparr>)
           in map_option period_list (addr_history p2 0x1000) = Some []
              \<and> map_option last_access (addr_history p2 0x1000) = Some 20
              \<and> map_option (map period \<circ> period_list) (addr_history p3 0x1000) = Some [5])"
proof -
  let ?e = "\<lparr>period_list = [], last_access = 10, vector_flag = False\<rparr>"
  let ?h = "[(0x1000 :: reg_t) \<mapsto> ?e]"
  let ?pw = "(idle_processor ())\<lparr>minstret := 20, addr_history := ?h,
                log_mem_write := [(0x2000, 0, 8), (0x1000, 7, 8)]\<rparr>"
  let ?pr = "(idle_processor ())\<lparr>minstret := 25, addr_history := ?h,
                log_mem_read := [(0x2000, 0, 8), (0x1000, 7, 8), (0x3000, 0, 8)]\<rparr>"
  have h1: "?h 0x1000 = Some ?e" by simp
  have h2: "addr_history ?pw 0x1000 = Some ?e" by simp
  have h3: "0x1000 \<in> fst ` set (log_mem_write ?pw)" by simp
  have h4: "0x1000 \<notin> fst ` set (log_mem_read ?pw)" by (simp add: idle_processor_def)
  have h5: "addr_history ?pr 0x1000 = Some ?e" by simp
  have h6: "0x1000 \<notin> fst ` set (log_mem_write ?pr)" by (simp add: idle_processor_def)
  have h7: "map fst (log_mem_read ?pr) = [0x2000] @ [0x1000] @ [0x3000]" by simp
  have h8: "(0x1000 :: reg_t) \<notin> set [0x2000]" by simp
  have h9: "(0x1000 :: reg_t) \<notin> set [0x3000]" by simp
  have h10: "addr_history (idle_processor ()) (0x1000 :: reg_t) = None" by (simp add: idle_processor_def)
  show ?thesis
    by (rule access_period_tracker [where h = ?h and A = "0x1000" and e = ?e and pw = ?pw
          and pr = ?pr and ys = "[0x2000]" and zs = "[0x3000]" and p = "idle_processor ()",
        OF h1 h2 h3 h4 h5 h6 h7 h8 h9 h10])
qed

text \<open>
  C8. The scalar floating-point load \<^verbatim>\<open>flw f0, 0(a1)\<close> (encoding \<^verbatim>\<open>0x0005a007\<close>) touches
  no vector register, and its low seven bits are \<^verbatim>\<open>0x07\<close>: the tracker classifies it as
  vector-sourced, seeds the entry of the address it reads with the flag set, and tags
  the interval of its second read as vector.
\<close>

theorem scalar_flw_marked_vector:
  "(let flw = \<lparr>insn_bits = 0x0005A007, insn_length = 4\<rparr>;
        p1 = log_print_mem_access 0x80000000 flw
               ((idle_processor ())\<lparr>minstret := 10, log_mem_read := [(0x1000, 0, 4)]\<rparr>);
        p2 = log_print_mem_access 0x80000004 flw
               (p1\<lparr>minstret := 25, log_mem_read := [(0x1000, 0, 4)]\<rparr>)
    in is_vector_insn flw
       \<and> addr_history p1 0x1000 = Some \<lparr>period_list = [], last_access = 10, vector_flag = True\<rparr>
       \<and> addr_history p2 0x1000
           = Some \<lparr>period_list = [\<lparr>period = 15, is_vector = True\<rparr>], last_access = 25,
                    vector_flag = True\<rparr>)"
  by (simp add: log_print_mem_access_def load_access_def store_access_def set_last_access_def
      new_period_info_t_def is_vector_insn_def VEC_ARITH_MATCH_def VEC_LOAD_MATCH_def
      VEC_STORE_MATCH_def idle_processor_def Let_def)

section \<open>Raw-op reconstructor: properties\<close>

lemma mask5: "(0x1f :: 32 word) = mask 5" 
  by (simp add: mask_eq_exp_minus_1)

lemma char_roundtrip: 
  fixes f :: "32 word"
  assumes "f \<le> 0x1f"
  shows "(ucast ((ucast f :: 8 word) + 1) :: 32 word) = f + 1"
proof -
  have a: "unat f \<le> 31" using assms by (simp add: word_le_nat_alt)
  have b: "unat (ucast f :: 8 word) = unat f" using a by (simp add: unsigned_ucast_eq take_bit_nat_eq_self)
  have c: "unat ((ucast f :: 8 word) + 1) = unat f + 1" using a b by (simp add: unat_word_ariths)
  have d: "unat (f + 1) = unat f + 1" using a by (simp add: unat_word_ariths)
  have "unat (ucast ((ucast f :: 8 word) + 1) :: 32 word) = unat f + 1"
    using a c by (simp add: unsigned_ucast_eq take_bit_nat_eq_self)
  with d show ?thesis by (simp add: word_unat_eq_iff)
qed

lemma inc_vd_put: "inc_vd w = put_field 7 ((drop_bit 7 w AND mask 5) + 1) w"
  unfolding inc_vd_def Let_def put_field_def
  using char_roundtrip [OF word_and_le1 [of "drop_bit 7 w" "0x1f"]] by (simp add: mask5)

lemma inc_vs1_put: "inc_vs1 w = put_field 15 ((drop_bit 15 w AND mask 5) + 1) w"
  unfolding inc_vs1_def Let_def put_field_def
  using char_roundtrip [OF word_and_le1 [of "drop_bit 15 w" "0x1f"]] by (simp add: mask5)

lemma inc_vs2_put: "inc_vs2 w = put_field 20 ((drop_bit 20 w AND mask 5) + 1) w"
  unfolding inc_vs2_def Let_def put_field_def
  using char_roundtrip [OF word_and_le1 [of "drop_bit 20 w" "0x1f"]] by (simp add: mask5)

lemma field_get_put:
  assumes "s + 5 \<le> 32"
  shows "drop_bit s (put_field s g w) AND mask 5 = g AND mask 5"
  unfolding put_field_def
  apply (rule bit_word_eqI)
  using assms
  apply (auto simp add: bit_simps)
  done

lemma bit_put_field_below: "n < s \<Longrightarrow> bit (put_field s g w) n = bit w n"
  unfolding put_field_def by (auto simp add: bit_simps dest: bit_imp_le_length)

lemma field_put_above:
  assumes "t + 5 \<le> s"
  shows "drop_bit t (put_field s g w) AND mask 5 = drop_bit t w AND mask 5"
  apply (rule bit_word_eqI)
  using assms
  apply (auto simp add: bit_simps bit_put_field_below)
  done

lemma vd_field_uop_increment:
  "drop_bit 7 (uop_increment cs k w) AND mask 5 = ((drop_bit 7 w AND mask 5) + 1) AND mask 5"
  unfolding uop_increment_def Let_def
  by (simp add: inc_vs1_put inc_vs2_put field_put_above inc_vd_put field_get_put)

lemma field_inc_mod:
  fixes f :: "32 word"
  assumes "f \<le> mask 5"
  shows "unat ((f + 1) AND mask 5) = (unat f + 1) mod 32"
proof -
  have "(f + 1) AND mask 5 = take_bit 5 (f + 1)" by (simp add: take_bit_eq_mask)
  moreover have "unat f \<le> 31" using assms by (simp add: word_le_nat_alt mask_eq_exp_minus_1)
  ultimately show ?thesis 
    by (simp add: unsigned_take_bit_eq take_bit_eq_mod unat_word_ariths)
qed

lemma vd_field_unat:
  "unat (drop_bit 7 (uop_increment cs k w) AND 0x1f) = (unat (drop_bit 7 w AND 0x1f) + 1) mod 32"
  using field_inc_mod [OF word_and_le1 [of "drop_bit 7 w" "mask 5"]] vd_field_uop_increment [of cs k w]
  by (simp add: mask5)


lemma vreg_array_addrs_set:
  "set (vreg_array_addrs f js acc) = set acc \<union> f ` set js"
  by (induction js arbitrary: acc) auto

lemma vreg_array_addrs_distinct:
  "distinct acc \<Longrightarrow> distinct (vreg_array_addrs f js acc)"
  by (induction js arbitrary: acc) auto

lemma key_from_parts:
  fixes k k' :: reg_t
  assumes "drop_bit 4 k = drop_bit 4 k'" and "k AND 0xf = 2" and "k' AND 0xf = 2"
  shows "k = k'"
proof (rule bit_word_eqI)
  fix n assume "n < LENGTH(64)"
  show "bit k n = bit k' n"
  proof (cases "n < 4")
    case True
    have "bit (k AND mask 4) n = bit (k' AND mask 4) n"
      using assms(2,3) by (simp add: mask_eq_exp_minus_1)
    with True show ?thesis by (simp add: bit_simps)
  next
    case False
    then obtain m where m: "n = 4 + m" by (metis le_add_diff_inverse not_less)
    have "bit (drop_bit 4 k) m = bit (drop_bit 4 k') m" using assms(1) by simp
    with m show ?thesis by (simp add: bit_simps)
  qed
qed

lemma vreg_indices_distinct:
  fixes reg :: "(reg_t \<times> 'v) list"
  assumes "distinct (map fst reg)"
  shows "distinct (map (\<lambda>i. drop_bit 4 (fst i)) (filter (\<lambda>i. fst i AND 0xf = 2) reg))"
proof -
  have d: "distinct (map fst (filter (\<lambda>i. fst i AND 0xf = 2) reg))"
    using assms by (rule distinct_map_filter)
  have "map (\<lambda>i. drop_bit 4 (fst i)) (filter (\<lambda>i. fst i AND 0xf = 2) reg)
        = map (drop_bit 4) (map fst (filter (\<lambda>i. fst i AND 0xf = 2) reg))" by simp
  moreover have "inj_on (drop_bit 4) (set (map fst (filter (\<lambda>i. fst i AND 0xf = 2) reg)))"
    by (rule inj_onI) (auto intro: key_from_parts)
  ultimately show ?thesis using d by (simp only: distinct_map)
qed

lemma vreg_array_three:
  assumes "distinct (map fst (log_reg_write p))"
    and "set (map (\<lambda>i. drop_bit 4 (fst i)) (filter (\<lambda>i. fst i AND 0xf = 2) (log_reg_write p)))
           \<union> set (map (log_reg_addr p) [0 ..< log_addr_valid p]) = {a, b, c}"
    and "a < b" and "b < c"
  shows "vreg_array_of p = [a, b, c]"
proof -
  let ?xs = "vreg_array_addrs (log_reg_addr p) [0 ..< log_addr_valid p]
        (map (\<lambda>i. drop_bit 4 (fst i)) (filter (\<lambda>i. fst i AND 0xf = 2) (log_reg_write p)))"
  have s: "set ?xs = {a, b, c}"
    using assms(2) by (simp only: vreg_array_addrs_set set_map)
  have d: "distinct ?xs"
    using assms(1) by (intro vreg_array_addrs_distinct vreg_indices_distinct)
  have "sort ?xs = [a, b, c]"
  proof (rule sorted_distinct_set_unique)
    show "sorted (sort ?xs)" by simp
    show "distinct (sort ?xs)" using d by simp
    show "sorted [a, b, c]" using assms(3,4) by auto
    show "distinct [a, b, c]" using assms(3,4) by auto
    show "set (sort ?xs) = set [a, b, c]" using s by simp
  qed
  then show ?thesis by (simp add: vreg_array_of_def)
qed

lemma uop_addresses_uop_step [simp]:
  "uop_addresses (uop_step cs pc0 i v p) x = uop_addresses p x"
  by (simp add: uop_addresses_def uop_step_def)

text \<open>
  C6 (as amended). When the write log names exactly three destination vector registers
  \<open>a < b < c\<close>, each with four logged addresses, the reconstructor writes exactly three
  records, for \<open>a\<close>, \<open>b\<close> and \<open>c\<close> in this order, each carrying the four addresses
  logged for its register in log order, and updates the held word after each record;
  each update leaves in the vd field the value it held plus one, modulo 32.
\<close>

theorem segmented_load_trace:
  assumes "distinct (map fst (log_reg_write p))"
    and "set (map (\<lambda>i. drop_bit 4 (fst i)) (filter (\<lambda>i. fst i AND 0xf = 2) (log_reg_write p)))
           \<union> set (map (log_reg_addr p) [0 ..< log_addr_valid p]) = {a, b, c}"
    and "a < b" and "b < c"
    and "length (uop_addresses p a) = 4"
    and "length (uop_addresses p b) = 4"
    and "length (uop_addresses p c) = 4"
  shows "(let w0 = sift_executed_insn p;
              w1 = uop_increment cs (log_addr_valid p) w0;
              w2 = uop_increment cs (log_addr_valid p) w1;
              w3 = uop_increment cs (log_addr_valid p) w2;
              vd = (\<lambda>w. unat (drop_bit 7 w AND 0x1f));
              rec = (\<lambda>v. Instruction pc0 (word_of_int (insn_length i)) (uop_addresses p v)
                            (log_is_branch p) (log_is_branch_taken p) False True);
              p1 = uop_step cs pc0 i a p;
              p2 = uop_step cs pc0 i b p1;
              p3 = uop_step cs pc0 i c p2
          in log_print_sift_trace cs pc0 i p
               = p3\<lparr>log_addr_valid := 0, log_is_branch := False, log_is_branch_taken := False\<rparr>
           \<and> log_writer p1 = log_writer p @ [rec a] \<and> sift_executed_insn p1 = w1
           \<and> log_writer p2 = log_writer p @ [rec a, rec b] \<and> sift_executed_insn p2 = w2
           \<and> log_writer p3 = log_writer p @ [rec a, rec b, rec c] \<and> sift_executed_insn p3 = w3
           \<and> map (length \<circ> uop_addresses p) [a, b, c] = [4, 4, 4]
           \<and> (\<forall>v. uop_addresses p v
                    = map (log_addr p) (filter (\<lambda>j. v = log_reg_addr p j) [0 ..< log_addr_valid p]))
           \<and> vd w1 = (vd w0 + 1) mod 32 \<and> vd w2 = (vd w1 + 1) mod 32 \<and> vd w3 = (vd w2 + 1) mod 32)"
proof -
  have "vreg_array_of p = [a, b, c]" using assms(1-4) by (rule vreg_array_three)
  then have run: "log_print_sift_trace cs pc0 i p
      = (uop_step cs pc0 i c (uop_step cs pc0 i b (uop_step cs pc0 i a p)))
          \<lparr>log_addr_valid := 0, log_is_branch := False, log_is_branch_taken := False\<rparr>"
    by (simp add: log_print_sift_trace_def)
  show ?thesis
    unfolding Let_def
    using run assms(5-7)
    by (simp add: vd_field_unat) (simp add: uop_step_def uop_addresses_def)
qed


text \<open>
  C6, as stated, fails at the last record of \<^verbatim>\<open>vlseg3e32.v v29, (a0)\<close>
  (\<^verbatim>\<open>0x42056e87\<close>): the three records are written for v29, v30 and v31, the vd field
  holds 31 when the third is written, and the update after it leaves 0 in the field,
  not a value one greater.
\<close>

theorem seg3_last_increment_wraps:
  "(let p = seg3_load 29 0x42056E87;
        p1 = log_print_sift_trace rvv_encoding 0x80000000 \<lparr>insn_bits = 0x42056E87, insn_length = 4\<rparr> p;
        w2 = uop_increment rvv_encoding 12 (uop_increment rvv_encoding 12 0x42056E87)
    in log_writer p1 =
         [Instruction 0x80000000 4 [0x1000, 0x100C, 0x1018, 0x1024] False False False True,
          Instruction 0x80000000 4 [0x1004, 0x1010, 0x101C, 0x1028] False False False True,
          Instruction 0x80000000 4 [0x1008, 0x1014, 0x1020, 0x102C] False False False True]
       \<and> sift_executed_insn p1 = uop_increment rvv_encoding 12 w2
       \<and> drop_bit 7 w2 AND 0x1f = 31
       \<and> drop_bit 7 (sift_executed_insn p1) AND 0x1f = 0)"
  by code_simp

theorem segmented_load_trace_witness:
  "(let w0 = sift_executed_insn (seg3_load 8 0x42056407);
              w1 = uop_increment rvv_encoding (log_addr_valid (seg3_load 8 0x42056407)) w0;
              w2 = uop_increment rvv_encoding (log_addr_valid (seg3_load 8 0x42056407)) w1;
              w3 = uop_increment rvv_encoding (log_addr_valid (seg3_load 8 0x42056407)) w2;
              vd = (\<lambda>w. unat (drop_bit 7 w AND 0x1f));
              rec = (\<lambda>v. Instruction 0x80000000 (word_of_int (insn_length \<lparr>insn_bits = 0x42056407, insn_length = 4\<rparr>)) (uop_addresses (seg3_load 8 0x42056407) v)
                            (log_is_branch (seg3_load 8 0x42056407)) (log_is_branch_taken (seg3_load 8 0x42056407)) False True);
              p1 = uop_step rvv_encoding 0x80000000 \<lparr>insn_bits = 0x42056407, insn_length = 4\<rparr> 8 (seg3_load 8 0x42056407);
              p2 = uop_step rvv_encoding 0x80000000 \<lparr>insn_bits = 0x42056407, insn_length = 4\<rparr> 9 p1;
              p3 = uop_step rvv_encoding 0x80000000 \<lparr>insn_bits = 0x42056407, insn_length = 4\<rparr> 10 p2
          in log_print_sift_trace rvv_encoding 0x80000000 \<lparr>insn_bits = 0x42056407, insn_length = 4\<rparr> (seg3_load 8 0x42056407)
               = p3\<lparr>log_addr_valid := 0, log_is_branch := False, log_is_branch_taken := False\<rparr>
           \<and> log_writer p1 = log_writer (seg3_load 8 0x42056407) @ [rec 8] \<and> sift_executed_insn p1 = w1
           \<and> log_writer p2 = log_writer (seg3_load 8 0x42056407) @ [rec 8, rec 9] \<and> sift_executed_insn p2 = w2
           \<and> log_writer p3 = log_writer (seg3_load 8 0x42056407) @ [rec 8, rec 9, rec 10] \<and> sift_executed_insn p3 = w3
           \<and> map (length \<circ> uop_addresses (seg3_load 8 0x42056407)) [8, 9, 10] = [4, 4, 4]
           \<and> (\<forall>v. uop_addresses (seg3_load 8 0x42056407) v
                    = map (log_addr (seg3_load 8 0x42056407)) (filter (\<lambda>j. v = log_reg_addr (seg3_load 8 0x42056407) j) [0 ..< log_addr_valid (seg3_load 8 0x42056407)]))
           \<and> vd w1 = (vd w0 + 1) mod 32 \<and> vd w2 = (vd w1 + 1) mod 32 \<and> vd w3 = (vd w2 + 1) mod 32)
   \<and> (let p = seg3_load 8 0x42056407;
        p1 = log_print_sift_trace rvv_encoding 0x80000000 \<lparr>insn_bits = 0x42056407, insn_length = 4\<rparr> p
    in log_writer p1 =
         [Instruction 0x80000000 4 [0x1000, 0x100C, 0x1018, 0x1024] False False False True,
          Instruction 0x80000000 4 [0x1004, 0x1010, 0x101C, 0x1028] False False False True,
          Instruction 0x80000000 4 [0x1008, 0x1014, 0x1020, 0x102C] False False False True]
       \<and> unat (drop_bit 7 (sift_executed_insn p) AND 0x1f) = 8
       \<and> unat (drop_bit 7 (sift_executed_insn p1) AND 0x1f) = 11)"
proof -
  let ?p = "seg3_load 8 0x42056407"
  have h1: "distinct (map fst (log_reg_write ?p))"
    by code_simp
  have h2: "set (map (\<lambda>i. drop_bit 4 (fst i)) (filter (\<lambda>i. fst i AND 0xf = 2) (log_reg_write ?p)))
           \<union> set (map (log_reg_addr ?p) [0 ..< log_addr_valid ?p]) = {8, 9, 10}"
    by code_simp
  have h3: "(8 :: reg_t) < 9" and h4: "(9 :: reg_t) < 10"
    by simp_all
  have h5: "length (uop_addresses ?p 8) = 4" and h6: "length (uop_addresses ?p 9) = 4"
    and h7: "length (uop_addresses ?p 10) = 4"
    by code_simp+
  have evaluated: "(let p = seg3_load 8 0x42056407;
        p1 = log_print_sift_trace rvv_encoding 0x80000000 \<lparr>insn_bits = 0x42056407, insn_length = 4\<rparr> p
    in log_writer p1 =
         [Instruction 0x80000000 4 [0x1000, 0x100C, 0x1018, 0x1024] False False False True,
          Instruction 0x80000000 4 [0x1004, 0x1010, 0x101C, 0x1028] False False False True,
          Instruction 0x80000000 4 [0x1008, 0x1014, 0x1020, 0x102C] False False False True]
       \<and> unat (drop_bit 7 (sift_executed_insn p) AND 0x1f) = 8
       \<and> unat (drop_bit 7 (sift_executed_insn p1) AND 0x1f) = 11)"
    by code_simp
  show ?thesis
    by (rule conjI [OF segmented_load_trace [OF h1 h2 h3 h4 h5 h6 h7] evaluated])
qed

text \<open>
  C5. The incremented field value is not masked: when a field holds 31 the value 32 is
  shifted back, the field reads 0 and the carry lands in the bit above it. For vd
  (\<^verbatim>\<open>vadd.vv v31, v2, v1\<close>, \<^verbatim>\<open>0x02208fd7\<close>) that is bit 12, for vs1 bit 20, for vs2
  bit 25; and the reconstructor run on that \<^verbatim>\<open>vadd.vv\<close> with the one register write
  v31 leaves \<^verbatim>\<open>0x02311057\<close> in the held word.
\<close>

theorem field_increment_carries_out:
  "inc_vd 0x02208FD7 = 0x02209057
   \<and> inc_vs1 0x020F8057 = 0x02100057
   \<and> inc_vs2 0x01F00057 = 0x02000057
   \<and> sift_executed_insn
        (log_print_sift_trace rvv_encoding 0x80000000 \<lparr>insn_bits = 0x02208FD7, insn_length = 4\<rparr>
           ((idle_processor ())\<lparr>log_reg_write := [(0x1F2, 0)], sift_executed_insn := 0x02208FD7\<rparr>))
       = 0x02311057"
  by (simp add: log_print_sift_trace_def vreg_array_of_def idle_processor_def uop_step_def
      uop_increment_def inc_vd_def inc_vs1_def inc_vs2_def rvv_encoding_def is_opivx_def
      is_opfvf_def is_opmvx_def is_opivi_def is_opfvv_vfunary0_def is_opfvv_vfunary1_def
      is_opmvv_vxunary1_def is_opmvv_vmunary1_def is_vlx_indexed_def is_vsx_indexed_def)

section \<open>Instruction execution step: properties\<close>

lemma control_eqD:
  assumes "control p = control q"
  shows "arch p = arch q" "minstret p = minstret q" "mcycle p = mcycle q" "pc p = pc q"
    "serialized p = serialized q" "single_step p = single_step q"
    "debug_mode p = debug_mode q" "debug p = debug q" "matched_trigger p = matched_trigger q"
  using assms by (simp_all add: control_def)

lemma control_commit_log_reset [simp]: "control (commit_log_reset p) = control p"
  by (simp add: control_def commit_log_reset_def)

lemma control_commit_log_stash_privilege [simp]: "control (commit_log_stash_privilege p) = control p"
  by (simp add: control_def commit_log_stash_privilege_def)

lemma control_record_executed_insn [simp]: "control (record_executed_insn b p) = control p"
  by (simp add: control_def record_executed_insn_def)

lemma control_update_histogram [simp]: "control (update_histogram cs a p) = control p"
  by (simp add: control_def update_histogram_def)

lemma control_disasm [simp]: "control (disasm i p) = control p"
  by (simp add: control_def disasm_def)

lemma control_log_print_mem_access [simp]: "control (log_print_mem_access a i p) = control p"
  by (simp add: control_def log_print_mem_access_def Let_def)

lemma control_uop_loop [simp]: "control (uop_loop cs a i vregs p) = control p"
  by (induction vregs arbitrary: p) (simp_all add: control_def uop_step_def)

lemma control_scalar_trace [simp]: "control (scalar_trace cs a i p) = control p"
  by (simp add: control_def scalar_trace_def Let_def)

lemma control_log_resets [simp]:
  "control (q\<lparr>log_addr_valid := k, log_is_branch := b1, log_is_branch_taken := b2\<rparr>) = control q"
  by (simp add: control_def)

lemma control_log_print_sift_trace [simp]: "control (log_print_sift_trace cs a i p) = control p"
  by (simp add: log_print_sift_trace_def Let_def)

lemma control_commit_log_print_insn:
  "commit_log_print_insn a i p = Some p2 \<Longrightarrow> control p2 = control p"
  by (auto simp add: commit_log_print_insn_def control_def split: if_splits option.splits)

lemma control_commit_and_trace:
  "commit_and_trace cs a i p = Some p2 \<Longrightarrow> control p2 = control p"
  by (auto simp add: commit_and_trace_def split: option.splits dest: control_commit_log_print_insn)

text \<open>What a call of \<open>execute_insn\<close> that returns or throws says about the handler.\<close>

lemma execute_insn_Return:
  assumes "execute_insn cs p0 a f = Return npc p2"
  shows "\<exists>p1. func f (commit_log_stash_privilege (commit_log_reset p0)) (insn f) a = (Inr npc, p1)
              \<and> control p2 = control p1"
proof -
  obtain r p1 where h: "func f (commit_log_stash_privilege (commit_log_reset p0)) (insn f) a = (r, p1)"
    by (cases "func f (commit_log_stash_privilege (commit_log_reset p0)) (insn f) a")
  show ?thesis
  proof (cases r)
    case (Inr npc1)
    with assms h show ?thesis
      by (auto simp add: execute_insn_def Let_def split: if_splits option.splits
          dest: control_commit_log_print_insn)
  next
    case (Inl e)
    with assms h show ?thesis
      by (cases e) (auto simp add: execute_insn_def Let_def split: if_splits option.splits)
  qed
qed

lemma execute_insn_Throw:
  assumes "execute_insn cs p0 a f = Throw e p2"
  shows "\<exists>p1. func f (commit_log_stash_privilege (commit_log_reset p0)) (insn f) a = (Inl e, p1)
              \<and> control p2 = control p1"
proof -
  obtain r p1 where h: "func f (commit_log_stash_privilege (commit_log_reset p0)) (insn f) a = (r, p1)"
    by (cases "func f (commit_log_stash_privilege (commit_log_reset p0)) (insn f) a")
  show ?thesis
  proof (cases r)
    case (Inr npc1)
    with assms h show ?thesis
      by (auto simp add: execute_insn_def Let_def split: if_splits option.splits)
  next
    case (Inl e1)
    with assms h show ?thesis
      by (cases e1) (auto simp add: execute_insn_def Let_def split: if_splits option.splits
          dest: control_commit_and_trace)
  qed
qed


lemma kind_generic_iff:
  fixes k :: reg_t
  assumes "k AND 0xf \<le> 4"
  shows "k AND 3 = 3 \<longleftrightarrow> k AND 0xf = 3"
proof -
  let ?y = "k AND 0xf"
  have split: "k AND 3 = ?y AND 3"
    by (simp add: and.assoc)
  have "unat ?y \<le> 4" using assms by (simp add: word_le_nat_alt)
  then have "unat ?y = 0 \<or> unat ?y = 1 \<or> unat ?y = 2 \<or> unat ?y = 3 \<or> unat ?y = 4" by arith
  then have "?y = 0 \<or> ?y = 1 \<or> ?y = 2 \<or> ?y = 3 \<or> ?y = 4"
    by (simp add: word_unat_eq_iff)
  then show ?thesis unfolding split by auto
qed

lemma generic_entry_iff:
  assumes "\<forall>item \<in> set reg. fst item AND 0xf \<le> (4 :: reg_t)"
  shows "list_ex (\<lambda>item. fst item AND 3 = 3) reg \<longleftrightarrow> (\<exists>item \<in> set reg. fst item AND 0xf = 3)"
  using assms by (auto simp add: list_ex_iff kind_generic_iff)

lemma commit_log_print_insn_log_file:
  "commit_log_print_insn pc0 i p = Some p2 \<Longrightarrow>
     \<exists>show_vec regs. p2 = p\<lparr>log_file := log_file p @ [commit_log_line pc0 i p show_vec regs]\<rparr>"
  by (fastforce simp add: commit_log_print_insn_def split: if_splits option.splits)

lemma uop_loop_log_writer:
  "\<exists>recs. length recs = length vregs \<and> log_writer (uop_loop cs pc0 i vregs p) = log_writer p @ recs"
proof (induction vregs arbitrary: p)
  case Nil
  then show ?case by simp
next
  case (Cons v vregs)
  obtain recs where r: "length recs = length vregs"
    "log_writer (uop_loop cs pc0 i vregs (uop_step cs pc0 i v p)) = log_writer (uop_step cs pc0 i v p) @ recs"
    using Cons.IH by blast
  have "log_writer (uop_step cs pc0 i v p) = log_writer p @ [Instruction pc0 (word_of_int (insn_length i)) (uop_addresses p v)
             (log_is_branch p) (log_is_branch_taken p) False True]"
    by (simp add: uop_step_def)
  with r show ?case
    by (intro exI [of _ "Instruction pc0 (word_of_int (insn_length i)) (uop_addresses p v)
             (log_is_branch p) (log_is_branch_taken p) False True # recs"]) simp
qed

lemma sift_trace_emits:
  "\<exists>recs. recs \<noteq> [] \<and> log_writer (log_print_sift_trace cs pc0 i p) = log_writer p @ recs"
proof (cases "vreg_array_of p = []")
  case True
  then show ?thesis by (simp add: log_print_sift_trace_def scalar_trace_def Let_def)
next
  case False
  obtain recs where "length recs = length (vreg_array_of p)"
    "log_writer (uop_loop cs pc0 i (vreg_array_of p) p) = log_writer p @ recs"
    using uop_loop_log_writer by blast
  with False show ?thesis
    by (intro exI [of _ recs]) (auto simp add: log_print_sift_trace_def Let_def)
qed

text \<open>
  C4. A handler throws a memory trap with commit logging enabled, the kinds of the logged
  register writes are the five known ones, and the commit-log line can be printed. If
  the write log has an entry of the vector-generic kind, the line is appended to the log
  file and at least one trace record to the trace, and then the same trap is thrown on;
  if it has none, the trap is thrown on from the state the handler left, with nothing
  added.
\<close>

theorem mem_trap_partial_commit:
  assumes "func fetch (commit_log_stash_privilege (commit_log_reset p0)) (insn fetch) pc0
             = (Inl (Trap t), p1)"
    and "is_mem_trap t"
    and "log_commits_enabled p1"
    and "\<forall>item \<in> set (log_reg_write p1). fst item AND 0xf \<le> 4"
    and "commit_log_print_insn pc0 (insn fetch)
           (record_executed_insn (insn_bits (insn fetch)) p1) = Some p2"
  shows "(if \<exists>item \<in> set (log_reg_write p1). fst item AND 0xf = 3
          then execute_insn cs p0 pc0 fetch
                 = Throw (Trap t) (log_print_sift_trace cs pc0 (insn fetch) p2)
               \<and> (\<exists>line. log_file p2 = log_file p1 @ [line])
               \<and> (\<exists>recs. recs \<noteq> [] \<and>
                    log_writer (log_print_sift_trace cs pc0 (insn fetch) p2) = log_writer p1 @ recs)
          else execute_insn cs p0 pc0 fetch = Throw (Trap t) p1)"
proof (cases "\<exists>item \<in> set (log_reg_write p1). fst item AND 0xf = 3")
  case True
  then have found: "list_ex (\<lambda>item. fst item AND 3 = 3) (log_reg_write p1)"
    using generic_entry_iff [OF assms(4)] by simp
  have run: "execute_insn cs p0 pc0 fetch
      = Throw (Trap t) (log_print_sift_trace cs pc0 (insn fetch) p2)"
    using assms(1,2,3,5) found by (simp add: execute_insn_def commit_and_trace_def Let_def)
  obtain line where line: "p2 = (record_executed_insn (insn_bits (insn fetch)) p1)
      \<lparr>log_file := log_file (record_executed_insn (insn_bits (insn fetch)) p1) @ [line]\<rparr>"
    using commit_log_print_insn_log_file [OF assms(5)] by blast
  have lf: "log_file p2 = log_file p1 @ [line]"
    by (subst line) (simp add: record_executed_insn_def)
  have writer: "log_writer p2 = log_writer p1"
    by (subst line) (simp add: record_executed_insn_def)
  obtain recs where "recs \<noteq> []"
    "log_writer (log_print_sift_trace cs pc0 (insn fetch) p2) = log_writer p2 @ recs"
    using sift_trace_emits by blast
  with writer have "\<exists>recs. recs \<noteq> [] \<and>
      log_writer (log_print_sift_trace cs pc0 (insn fetch) p2) = log_writer p1 @ recs"
    by auto
  with True run lf show ?thesis by auto
next
  case False
  then have "\<not> list_ex (\<lambda>item. fst item AND 3 = 3) (log_reg_write p1)"
    using generic_entry_iff [OF assms(4)] by simp
  then have "execute_insn cs p0 pc0 fetch = Throw (Trap t) p1"
    using assms(1) by (simp add: execute_insn_def Let_def)
  with False show ?thesis by simp
qed


theorem mem_trap_partial_commit_witness:
  "(let t = \<lparr>is_mem_trap = True, cause = 13, tval = 0x2000\<rparr>;
        p1 = (commit_log_stash_privilege (commit_log_reset (idle_processor ())))\<lparr>log_reg_write := [(3, 0)]\<rparr>;
        p2 = the (commit_log_print_insn 0x80000000 (insn faulting_vle32)
                   (record_executed_insn (insn_bits (insn faulting_vle32)) p1))
    in (if \<exists>item \<in> set (log_reg_write p1). fst item AND 0xf = 3
        then execute_insn rvv_encoding (idle_processor ()) 0x80000000 faulting_vle32
               = Throw (Trap t) (log_print_sift_trace rvv_encoding 0x80000000 (insn faulting_vle32) p2)
             \<and> (\<exists>line. log_file p2 = log_file p1 @ [line])
             \<and> (\<exists>recs. recs \<noteq> [] \<and>
                  log_writer (log_print_sift_trace rvv_encoding 0x80000000 (insn faulting_vle32) p2)
                    = log_writer p1 @ recs)
        else execute_insn rvv_encoding (idle_processor ()) 0x80000000 faulting_vle32 = Throw (Trap t) p1))
   \<and> (case execute_insn rvv_encoding (idle_processor ()) 0x80000000 faulting_vle32 of
        Throw e p \<Rightarrow> e = Trap \<lparr>is_mem_trap = True, cause = 13, tval = 0x2000\<rparr>
            \<and> length (log_file p) = 1 \<and> length (log_writer p) = 1
      | _ \<Rightarrow> False)
   \<and> (case execute_insn rvv_encoding (idle_processor ()) 0x80000000 faulting_ld of
        Throw e p \<Rightarrow> e = Trap \<lparr>is_mem_trap = True, cause = 13, tval = 0x2000\<rparr>
            \<and> length (log_file p) = 0 \<and> length (log_writer p) = 0
      | _ \<Rightarrow> False)"
proof -
  let ?t = "\<lparr>is_mem_trap = True, cause = 13, tval = 0x2000\<rparr>"
  let ?p1 = "(commit_log_stash_privilege (commit_log_reset (idle_processor ())))\<lparr>log_reg_write := [(3, 0)]\<rparr>"
  let ?print = "commit_log_print_insn 0x80000000 (insn faulting_vle32)
                   (record_executed_insn (insn_bits (insn faulting_vle32)) ?p1)"
  have h1: "func faulting_vle32 (commit_log_stash_privilege (commit_log_reset (idle_processor ())))
              (insn faulting_vle32) 0x80000000 = (Inl (Trap ?t), ?p1)"
    by (simp add: faulting_vle32_def)
  have h2: "is_mem_trap ?t" by simp
  have h3: "log_commits_enabled ?p1"
    by (simp add: commit_log_stash_privilege_def commit_log_reset_def idle_processor_def)
  have h4: "\<forall>item \<in> set (log_reg_write ?p1). fst item AND 0xf \<le> 4" by simp
  have "?print \<noteq> None" by code_simp
  then have h5: "?print = Some (the ?print)" by simp
  have e1: "(case execute_insn rvv_encoding (idle_processor ()) 0x80000000 faulting_vle32 of
        Throw e p \<Rightarrow> e = Trap \<lparr>is_mem_trap = True, cause = 13, tval = 0x2000\<rparr>
            \<and> length (log_file p) = 1 \<and> length (log_writer p) = 1
      | _ \<Rightarrow> False)"
    by code_simp
  have e2: "(case execute_insn rvv_encoding (idle_processor ()) 0x80000000 faulting_ld of
        Throw e p \<Rightarrow> e = Trap \<lparr>is_mem_trap = True, cause = 13, tval = 0x2000\<rparr>
            \<and> length (log_file p) = 0 \<and> length (log_writer p) = 0
      | _ \<Rightarrow> False)"
    by code_simp
  show ?thesis
    unfolding Let_def
    by (rule conjI [OF mem_trap_partial_commit [OF h1 h2 h3 h4 h5] conjI [OF e1 e2]])
qed


lemma vssrl_vv_throws:
  "VI_VV_ULOOP m (vssrl_vv_body m (get_vround_mode m p)) p = (Some e, p1)
     \<Longrightarrow> vssrl_vv m p = (Some e, p1)"
  by (simp add: vssrl_vv_def)

text \<open>
  C10. When the element loop of \<^verbatim>\<open>vssrl.vv\<close> completes, the handler returns the state
  the loop left with \<^verbatim>\<open>mhpmcounter[10]\<close> one greater and every other counter as it was;
  and the value the loop body assigns to an element of vd is the element of vs2, at 128
  bits, rounded by \<^verbatim>\<open>INT_ROUNDING\<close> and shifted right by the element of vs1 masked with
  \<^verbatim>\<open>sew - 1\<close>, cut to the element width.
\<close>

theorem vssrl_vv_bumps_counter:
  assumes "VI_VV_ULOOP m (vssrl_vv_body m (get_vround_mode m p)) p = (None, p1)"
  shows "vssrl_vv m p = (None, p1\<lparr>mhpmcounter := (mhpmcounter p1)(10 := mhpmcounter p1 10 + 1)\<rparr>)
       \<and> mhpmcounter (snd (vssrl_vv m p)) 10 = mhpmcounter p1 10 + 1
       \<and> (\<forall>k. k \<noteq> 10 \<longrightarrow> mhpmcounter (snd (vssrl_vv m p)) k = mhpmcounter p1 k)
       \<and> (\<forall>xrm sew vs1 vs2.
             vssrl_vv_body m xrm sew vs1 vs2
               = take_bit sew (ucast (drop_bit (unat (vs1 AND (of_nat sew - 1)))
                   (INT_ROUNDING m (ucast vs2) xrm (unat (vs1 AND (of_nat sew - 1)))))))"
  using assms by (simp add: vssrl_vv_def bump_mhpmcounter_def vssrl_vv_body_def Let_def)

theorem vssrl_vv_bumps_counter_witness:
  "(let p = idle_processor ([(2, 11), (9, 0xFF)], []) in
      fst (vssrl_vv toy_macros p) = None
    \<and> mhpmcounter (snd (vssrl_vv toy_macros p)) 10 = mhpmcounter p 10 + 1
    \<and> mhpmcounter (snd (vssrl_vv toy_macros p)) 9 = mhpmcounter p 9
    \<and> snd (arch (snd (vssrl_vv toy_macros p))) = [3, 0x80])"
proof -
  let ?p = "idle_processor ([(2 :: reg_t, 11 :: reg_t), (9, 0xFF)], [] :: reg_t list)"
  let ?p1 = "?p\<lparr>arch := (fst (arch ?p),
      map (\<lambda>(vs1, vs2). vssrl_vv_body toy_macros (get_vround_mode toy_macros ?p) 8 vs1 vs2)
        (fst (arch ?p)))\<rparr>"
  have h: "VI_VV_ULOOP toy_macros (vssrl_vv_body toy_macros (get_vround_mode toy_macros ?p)) ?p
      = (None, ?p1)"
    by (simp add: toy_macros_def)
  have c: "mhpmcounter ?p1 = mhpmcounter ?p" by simp
  have v: "snd (arch ?p1) = [3, 0x80]"
    by (simp add: toy_macros_def vssrl_vv_body_def idle_processor_def)
  show ?thesis
    using vssrl_vv_bumps_counter [OF h] c v
    unfolding Let_def by simp
qed


section \<open>Fetch/execute loop: properties\<close>

lemma retired_refl [simp]: "retired cnt 0 p p"
  by (simp add: retired_def)

lemma retired_trans: "retired cnt j p q \<Longrightarrow> retired cnt k q r \<Longrightarrow> retired cnt (j + k) p r"
  by (simp add: retired_def)

lemma retired_control: "control p = control q \<Longrightarrow> retired cnt 0 p q"
  by (simp add: retired_def control_def)

lemma retired_control_left: "control p = control p' \<Longrightarrow> retired cnt k p q \<Longrightarrow> retired cnt k p' q"
  by (simp add: retired_def control_def)

lemma retired_control_right: "control q = control q' \<Longrightarrow> retired cnt k p q \<Longrightarrow> retired cnt k p q'"
  by (simp add: retired_def control_def)

lemma retired_flags [simp]:
  "retired cnt k p (q\<lparr>single_step := s\<rparr>) = retired cnt k p q"
  "retired cnt k p (q\<lparr>serialized := b\<rparr>) = retired cnt k p q"
  "retired cnt k p (q\<lparr>pc := a\<rparr>) = retired cnt k p q"
  "retired cnt k p (q\<lparr>matched_trigger := b\<rparr>) = retired cnt k p q"
  "retired cnt k (p\<lparr>single_step := s\<rparr>) q = retired cnt k p q"
  "retired cnt k (p\<lparr>serialized := b\<rparr>) q = retired cnt k p q"
  "retired cnt k (p\<lparr>pc := a\<rparr>) q = retired cnt k p q"
  "retired cnt k (p\<lparr>matched_trigger := b\<rparr>) q = retired cnt k p q"
  by (simp_all add: retired_def)

lemma retired_disasm [simp]:
  "retired cnt k p (disasm i q) = retired cnt k p q"
  "retired cnt k (disasm i p) q = retired cnt k p q"
  by (simp_all add: retired_def disasm_def)

lemma countsD:
  assumes "counts ev cnt"
  shows "invalid_pc (enc ev) (PC_SERIALIZE_BEFORE (enc ev))"
    and "ic_tag ev p e \<noteq> PC_SERIALIZE_BEFORE (enc ev)"
    and "retired cnt 0 p (snd (take_pending_interrupt ev p))"
    and "retired cnt 0 p (snd (load_insn ev p a))"
    and "fst (load_insn ev p a) = Inr f \<Longrightarrow> counted (enc ev) cnt f"
    and "retired cnt 0 p (snd (access_icache ev p a))"
    and "counted (enc ev) cnt (ic_data ev p e)"
    and "retired cnt 0 p (enter_debug_mode ev c p)"
    and "retired cnt 0 p (take_trap ev t a p)"
  using assms unfolding counts_def by blast+

lemma execute_insn_counted:
  assumes "counted cs cnt f"
  shows "execute_insn cs p a f = Return npc p2 \<Longrightarrow>
           retired cnt (if npc = PC_SERIALIZE_BEFORE cs then 0 else 1) p p2"
    and "execute_insn cs p a f = Throw e p2 \<Longrightarrow> retired cnt 0 p p2"
proof -
  let ?p = "commit_log_stash_privilege (commit_log_reset p)"
  have c: "case func f ?p (insn f) a of
          (Inr npc, p1) \<Rightarrow> retired cnt (if npc = PC_SERIALIZE_BEFORE cs then 0 else 1) ?p p1
        | (Inl e, p1) \<Rightarrow> retired cnt 0 ?p p1"
    by (rule assms [unfolded counted_def, rule_format])
  have start: "control ?p = control p" by simp
  {
    assume "execute_insn cs p a f = Return npc p2"
    then obtain p1 where h: "func f ?p (insn f) a = (Inr npc, p1)" "control p2 = control p1"
      using execute_insn_Return by blast
    from c h(1) have "retired cnt (if npc = PC_SERIALIZE_BEFORE cs then 0 else 1) ?p p1" by simp
    then show "retired cnt (if npc = PC_SERIALIZE_BEFORE cs then 0 else 1) p p2"
      using retired_control_left [OF start] retired_control_right [OF h(2) [symmetric]] by blast
  }
  {
    assume "execute_insn cs p a f = Throw e p2"
    then obtain p1 where h: "func f ?p (insn f) a = (Inl e, p1)" "control p2 = control p1"
      using execute_insn_Throw by blast
    from c h(1) have "retired cnt 0 ?p p1" by simp
    then show "retired cnt 0 p p2"
      using retired_control_left [OF start] retired_control_right [OF h(2) [symmetric]] by blast
  }
qed

lemma slow_pass_counts:
  assumes "counts ev cnt"
  shows "slow_pass ev instret a p = Again npc q \<Longrightarrow> retired cnt 1 p q"
    and "slow_pass ev instret a p = Exit (Normal i q) \<Longrightarrow>
           instret \<le> i \<and> i \<le> instret + 1 \<and> retired cnt (i - instret) p q"
    and "slow_pass ev instret a p = Exit (Caught e i a' q) \<Longrightarrow>
           i = instret \<and> retired cnt 0 p q"
proof -
  define p1 where "p1 = (if \<not> serialized p \<and> single_step p = STEP_STEPPED
                         then p\<lparr>single_step := STEP_NONE\<rparr> else p)"
  define p2 where "p2 = (if single_step p1 = STEP_STEPPING
                         then p1\<lparr>single_step := STEP_STEPPED\<rparr> else p1)"
  have a1: "retired cnt 0 p p1" by (simp add: p1_def)
  have a2: "retired cnt 0 p p2" using a1 by (simp add: p2_def)
  obtain r p3 where L: "load_insn ev p2 a = (r, p3)" by (cases "load_insn ev p2 a")
  have c3: "retired cnt 0 p p3"
    using retired_trans [OF a2 countsD(4) [OF assms, of p2 a]] L by simp
  define p4 where "p4 = (case r of Inr fetch \<Rightarrow> (if debug p3 \<and> \<not> serialized p3
                              then disasm (insn fetch) p3 else p3) | Inl e \<Rightarrow> p3)"
  have c4: "retired cnt 0 p p4"
    using c3 by (simp add: p4_def split: sum.splits)
  have dbg: "retired cnt 0 p (enter_debug_mode ev DCSR_CAUSE_STEP p1)"
    using retired_trans [OF a1 countsD(8) [OF assms, of p1 DCSR_CAUSE_STEP]] by simp
  have inv: "invalid_pc (enc ev) (PC_SERIALIZE_BEFORE (enc ev))"
    by (rule countsD(1) [OF assms])
  have f: "\<And>fetch. r = Inr fetch \<Longrightarrow> counted (enc ev) cnt fetch"
    using countsD(5) [OF assms, of p2 a] L by simp
  define leave where "leave \<longleftrightarrow> (\<not> serialized p \<and> single_step p = STEP_STEPPED) \<and> \<not> debug_mode p1"
  have sp: "slow_pass ev instret a p =
     (if leave
      then Exit (Normal instret (enter_debug_mode ev DCSR_CAUSE_STEP p1))
      else case r of
             Inl e \<Rightarrow> Exit (Caught e instret a p3)
           | Inr fetch \<Rightarrow>
               (case execute_insn (enc ev) p4 a fetch of
                  Abort \<Rightarrow> Exit Died
                | Throw e p5 \<Rightarrow> Exit (Caught e instret a p5)
                | Return npc p5 \<Rightarrow>
                    if invalid_pc (enc ev) npc
                    then Exit (advance_pc_invalid (enc ev) npc instret p5)
                    else Again npc (p5\<lparr>pc := npc\<rparr>)))"
    unfolding slow_pass_def Let_def p1_def [symmetric] p2_def [symmetric] leave_def
    by (simp add: L p4_def split: sum.splits)
  have main: "case slow_pass ev instret a p of
      Again npc q \<Rightarrow> retired cnt 1 p q
    | Exit (Normal i q) \<Rightarrow> instret \<le> i \<and> i \<le> instret + 1 \<and> retired cnt (i - instret) p q
    | Exit (Caught e i a' q) \<Rightarrow> i = instret \<and> retired cnt 0 p q
    | Exit Died \<Rightarrow> True"
  proof (cases leave)
    case True
    then show ?thesis unfolding sp using dbg by simp
  next
    case False
    show ?thesis
    proof (cases r)
      case (Inl e)
      with False show ?thesis unfolding sp using c3 by simp
    next
      case (Inr fetch)
      note fc = f [OF Inr]
      show ?thesis
      proof (cases "execute_insn (enc ev) p4 a fetch")
        case Abort
        with False Inr show ?thesis unfolding sp by simp
      next
        case (Throw e p5)
        have "retired cnt 0 p p5"
          using retired_trans [OF c4 execute_insn_counted(2) [OF fc Throw]] by simp
        with False Inr Throw show ?thesis unfolding sp by simp
      next
        case (Return npc p5)
        have c5: "retired cnt (if npc = PC_SERIALIZE_BEFORE (enc ev) then 0 else 1) p p5"
          using retired_trans [OF c4 execute_insn_counted(1) [OF fc Return]] by simp
        show ?thesis
        proof (cases "invalid_pc (enc ev) npc")
          case True
          with False Inr Return c5 show ?thesis
            unfolding sp by (auto simp add: advance_pc_invalid_def split: if_splits)
        next
          case valid: False
          with inv have "npc \<noteq> PC_SERIALIZE_BEFORE (enc ev)" by auto
          with False Inr Return c5 valid show ?thesis
            unfolding sp by simp
        qed
      qed
    qed
  qed
  show "slow_pass ev instret a p = Again npc q \<Longrightarrow> retired cnt 1 p q"
    using main by simp
  show "slow_pass ev instret a p = Exit (Normal i q) \<Longrightarrow>
           instret \<le> i \<and> i \<le> instret + 1 \<and> retired cnt (i - instret) p q"
    using main by simp
  show "slow_pass ev instret a p = Exit (Caught e i a' q) \<Longrightarrow>
           i = instret \<and> retired cnt 0 p q"
    using main by simp
qed

lemma slow_loop_counts:
  assumes "counts ev cnt"
  shows "instret \<le> n \<Longrightarrow> batch_counted cnt n instret p (slow_loop ev n instret a p)"
proof (induction "n - instret" arbitrary: instret a p rule: less_induct)
  case less
  note unfold = slow_loop.simps [of ev n instret a p]
  show ?case
  proof (cases "instret < n")
    case False
    then have "slow_loop ev n instret a p = Normal instret p" by (subst unfold) simp
    with less.prems show ?thesis by (simp add: batch_counted_def)
  next
    case True
    show ?thesis
    proof (cases "slow_pass ev instret a p")
      case (Again npc q)
      have eq: "slow_loop ev n instret a p = slow_loop ev n (instret + 1) npc q"
        using True Again by (subst unfold) simp
      have c: "retired cnt 1 p q"
        using slow_pass_counts(1) [OF assms Again] .
      have ih: "batch_counted cnt n (instret + 1) q (slow_loop ev n (instret + 1) npc q)"
        using True by (intro less.hyps) auto
      show ?thesis
      proof (cases "slow_loop ev n (instret + 1) npc q")
        case (Normal i r)
        with ih have b: "instret + 1 \<le> i" "i \<le> n" "retired cnt (i - (instret + 1)) q r"
          by (simp_all add: batch_counted_def)
        have k: "1 + (i - (instret + 1)) = i - instret" using b(1) by arith
        have "retired cnt (i - instret) p r"
          using retired_trans [OF c b(3)] unfolding k .
        with b Normal show ?thesis
          unfolding eq by (simp add: batch_counted_def)
      next
        case (Caught e i a' r)
        with ih have b: "instret + 1 \<le> i" "i < n" "retired cnt (i - (instret + 1)) q r"
          by (simp_all add: batch_counted_def)
        have k: "1 + (i - (instret + 1)) = i - instret" using b(1) by arith
        have "retired cnt (i - instret) p r"
          using retired_trans [OF c b(3)] unfolding k .
        with b Caught show ?thesis
          unfolding eq by (simp add: batch_counted_def)
      next
        case Died
        then show ?thesis unfolding eq by (simp add: batch_counted_def)
      qed
    next
      case (Exit b)
      have eq: "slow_loop ev n instret a p = b"
        using True Exit by (subst unfold) simp
      show ?thesis
      proof (cases b)
        case (Normal i q)
        with slow_pass_counts(2) [OF assms, of instret a p i q] Exit True show ?thesis
          unfolding eq by (simp add: batch_counted_def)
      next
        case (Caught e i a' q)
        with slow_pass_counts(3) [OF assms, of instret a p e i a' q] Exit True show ?thesis
          unfolding eq by (simp add: batch_counted_def)
      next
        case Died
        then show ?thesis unfolding eq by (simp add: batch_counted_def)
      qed
    qed
  qed
qed


lemma retired_eq: "retired cnt j p q \<Longrightarrow> j = k \<Longrightarrow> retired cnt k p q"
  by simp

lemma batch_counted_Normal:
  "batch_counted cnt n instret p (Normal i q) \<longleftrightarrow>
     instret \<le> i \<and> i \<le> n \<and> retired cnt (i - instret) p q"
  by (simp add: batch_counted_def)

lemma batch_counted_Caught:
  "batch_counted cnt n instret p (Caught e i a q) \<longleftrightarrow>
     instret \<le> i \<and> i < n \<and> retired cnt (i - instret) p q"
  by (simp add: batch_counted_def)

lemma batch_counted_Died: "batch_counted cnt n instret p Died"
  by (simp add: batch_counted_def)

lemma for_counted_Break:
  "for_counted cs cnt n instret p (Break i npc q) \<longleftrightarrow>
     instret \<le> i \<and> i < n
     \<and> retired cnt (i - instret + (if npc = PC_SERIALIZE_BEFORE cs then 0 else 1)) p q"
  by (simp add: for_counted_def split del: if_split)

lemma for_counted_ForCaught:
  "for_counted cs cnt n instret p (ForCaught e i a q) \<longleftrightarrow>
     instret \<le> i \<and> i < n \<and> retired cnt (i - instret) p q"
  by (simp add: for_counted_def)

lemma for_counted_ForDied: "for_counted cs cnt n instret p ForDied"
  by (simp add: for_counted_def)

lemma icache_pass_counts:
  assumes "counts ev cnt" and "instret < n"
  shows "case icache_pass ev n instret a ic_entry p of
      ForAgain npc ic_entry1 q \<Rightarrow> instret + 1 < n \<and> retired cnt 1 p q
    | ForExit x \<Rightarrow> for_counted (enc ev) cnt n instret p x"
proof -
  note fc = countsD(7) [OF assms(1), where p = p and e = ic_entry]
  show ?thesis
  proof (cases "execute_insn (enc ev) p a (ic_data ev p ic_entry)")
    case Abort
    then show ?thesis by (simp add: icache_pass_def for_counted_ForDied)
  next
    case (Throw e p1)
    with execute_insn_counted(2) [OF fc Throw] assms(2) show ?thesis
      by (simp add: icache_pass_def for_counted_ForCaught)
  next
    case (Return npc p1)
    note c = execute_insn_counted(1) [OF fc Return]
    show ?thesis
    proof (cases "ic_tag ev p1 (ic_next ev p1 ic_entry) \<noteq> npc \<or> instret + 1 = n")
      case True
      have "for_counted (enc ev) cnt n instret p (Break instret npc p1)"
        unfolding for_counted_Break using c assms(2) by simp
      with True Return show ?thesis
        by (auto simp add: icache_pass_def Let_def)
    next
      case False
      then have ne: "npc \<noteq> PC_SERIALIZE_BEFORE (enc ev)"
        using countsD(2) [OF assms(1), where p = p1 and e = "ic_next ev p1 ic_entry"] by auto
      from c ne have "retired cnt 1 p (p1\<lparr>pc := npc\<rparr>)" by simp
      with False Return assms(2) show ?thesis
        by (auto simp add: icache_pass_def Let_def)
    qed
  qed
qed

lemma icache_for_counts:
  assumes "counts ev cnt"
  shows "instret < n \<Longrightarrow> for_counted (enc ev) cnt n instret p (icache_for ev n instret a ic_entry p)"
proof (induction "n - instret" arbitrary: instret a ic_entry p rule: less_induct)
  case less
  note unfold = icache_for.simps [of ev n instret a ic_entry p]
  note pass = icache_pass_counts [OF assms less.prems, where a = a and ic_entry = ic_entry and p = p]
  show ?case
  proof (cases "icache_pass ev n instret a ic_entry p")
    case (ForExit x)
    have eq: "icache_for ev n instret a ic_entry p = x"
      using ForExit by (subst unfold) simp
    from pass ForExit show ?thesis unfolding eq by simp
  next
    case (ForAgain npc ic_entry1 q)
    have eq: "icache_for ev n instret a ic_entry p = icache_for ev n (instret + 1) npc ic_entry1 q"
      using ForAgain by (subst unfold) simp
    from pass ForAgain have lt: "instret + 1 < n" and c: "retired cnt 1 p q" by simp_all
    have ih: "for_counted (enc ev) cnt n (instret + 1) q (icache_for ev n (instret + 1) npc ic_entry1 q)"
      using lt by (intro less.hyps) auto
    show ?thesis
    proof (cases "icache_for ev n (instret + 1) npc ic_entry1 q")
      case (Break i npc1 r)
      define m :: nat where "m = (if npc1 = PC_SERIALIZE_BEFORE (enc ev) then 0 else 1)"
      from ih [unfolded Break for_counted_Break]
      have b: "instret + 1 \<le> i" "i < n" "retired cnt (i - (instret + 1) + m) q r"
        unfolding m_def by blast+
      have "retired cnt (i - instret + m) p r"
        using retired_trans [OF c b(3)] by (rule retired_eq) (use b(1) in arith)
      with b(1,2) show ?thesis unfolding eq Break for_counted_Break m_def by simp
    next
      case (ForCaught e i a' r)
      from ih [unfolded ForCaught for_counted_ForCaught]
      have b: "instret + 1 \<le> i" "i < n" "retired cnt (i - (instret + 1)) q r"
        by blast+
      have "retired cnt (i - instret) p r"
        using retired_trans [OF c b(3)] by (rule retired_eq) (use b(1) in arith)
      with b(1,2) show ?thesis unfolding eq ForCaught for_counted_ForCaught by simp
    next
      case ForDied
      then show ?thesis unfolding eq by (simp add: for_counted_ForDied)
    qed
  qed
qed

lemma fast_loop_counts:
  assumes "counts ev cnt"
  shows "instret \<le> n \<Longrightarrow> batch_counted cnt n instret p (fast_loop ev n instret a p)"
proof (induction "n - instret" arbitrary: instret a p rule: less_induct)
  case less
  note unfold = fast_loop.simps [of ev n instret a p]
  show ?case
  proof (cases "instret < n")
    case False
    then have "fast_loop ev n instret a p = Normal instret p" by (subst unfold) simp
    with less.prems show ?thesis by (simp add: batch_counted_Normal)
  next
    case True
    obtain r p1 where A: "access_icache ev p a = (r, p1)" by (cases "access_icache ev p a")
    have c1: "retired cnt 0 p p1" using countsD(6) [OF assms, where p = p and a = a] A by simp
    show ?thesis
    proof (cases r)
      case (Inl e)
      then have "fast_loop ev n instret a p = Caught e instret a p1"
        using True A by (subst unfold) simp
      with c1 True show ?thesis by (simp add: batch_counted_Caught)
    next
      case (Inr ic_entry)
      note fc = icache_for_counts [OF assms True, where p = p1 and a = a and ic_entry = ic_entry]
      show ?thesis
      proof (cases "icache_for ev n instret a ic_entry p1")
        case ForDied
        then have "fast_loop ev n instret a p = Died"
          using True A Inr by (subst unfold) simp
        then show ?thesis by (simp add: batch_counted_Died)
      next
        case (ForCaught e i a' p2)
        then have eq: "fast_loop ev n instret a p = Caught e i a' p2"
          using True A Inr by (subst unfold) simp
        from fc [unfolded ForCaught for_counted_ForCaught]
        have b: "instret \<le> i" "i < n" "retired cnt (i - instret) p1 p2"
          by blast+
        have "retired cnt (i - instret) p p2"
          using retired_trans [OF c1 b(3)] by (rule retired_eq) simp
        with b(1,2) show ?thesis
          unfolding eq batch_counted_Caught by simp
      next
        case (Break i npc p2)
        define m :: nat where "m = (if npc = PC_SERIALIZE_BEFORE (enc ev) then 0 else 1)"
        from fc [unfolded Break for_counted_Break]
        have b: "instret \<le> i" "i < n" "retired cnt (i - instret + m) p1 p2"
          unfolding m_def by blast+
        have c2: "retired cnt (i - instret + m) p p2"
          using retired_trans [OF c1 b(3)] by (rule retired_eq) simp
        show ?thesis
        proof (cases "invalid_pc (enc ev) npc")
          case True
          have eq: "fast_loop ev n instret a p = advance_pc_invalid (enc ev) npc i p2"
            using \<open>instret < n\<close> A Inr Break True by (subst unfold) simp
          show ?thesis
          proof (cases "npc = PC_SERIALIZE_BEFORE (enc ev)")
            case before: True
            then have "m = 0" by (simp add: m_def)
            with c2 have "retired cnt (i - instret) p (p2\<lparr>serialized := True\<rparr>)" by simp
            with b(1,2) before show ?thesis
              unfolding eq by (simp add: advance_pc_invalid_def batch_counted_Normal)
          next
            case False
            then have "m = 1" by (simp add: m_def)
            with c2 have "retired cnt (i + 1 - instret) p p2"
              by (elim retired_eq) (use b(1) in arith)
            with b(1,2) False show ?thesis
              unfolding eq by (simp add: advance_pc_invalid_def batch_counted_Normal batch_counted_Died)
          qed
        next
          case False
          with countsD(1) [OF assms] have ne: "npc \<noteq> PC_SERIALIZE_BEFORE (enc ev)" by auto
          have eq: "fast_loop ev n instret a p = fast_loop ev n (i + 1) npc (p2\<lparr>pc := npc\<rparr>)"
            using \<open>instret < n\<close> A Inr Break False by (subst unfold) simp
          have c3: "retired cnt (i - instret + 1) p (p2\<lparr>pc := npc\<rparr>)"
            using c2 ne by (simp add: m_def)
          have ih: "batch_counted cnt n (i + 1) (p2\<lparr>pc := npc\<rparr>)
                      (fast_loop ev n (i + 1) npc (p2\<lparr>pc := npc\<rparr>))"
            using b by (intro less.hyps) auto
          show ?thesis
          proof (cases "fast_loop ev n (i + 1) npc (p2\<lparr>pc := npc\<rparr>)")
            case (Normal j r)
            from ih [unfolded Normal batch_counted_Normal]
            have d: "i + 1 \<le> j" "j \<le> n" "retired cnt (j - (i + 1)) (p2\<lparr>pc := npc\<rparr>) r"
              by blast+
            have "retired cnt (j - instret) p r"
              using retired_trans [OF c3 d(3)] by (rule retired_eq) (use d(1) b(1) in arith)
            with d b(1) show ?thesis unfolding eq Normal batch_counted_Normal by simp
          next
            case (Caught e j a' r)
            from ih [unfolded Caught batch_counted_Caught]
            have d: "i + 1 \<le> j" "j < n" "retired cnt (j - (i + 1)) (p2\<lparr>pc := npc\<rparr>) r"
              by blast+
            have "retired cnt (j - instret) p r"
              using retired_trans [OF c3 d(3)] by (rule retired_eq) (use d(1) b(1) in arith)
            with d b(1) show ?thesis unfolding eq Caught batch_counted_Caught by simp
          next
            case Died
            then show ?thesis unfolding eq by (simp add: batch_counted_Died)
          qed
        qed
      qed
    qed
  qed
qed

lemma try_block_counts:
  assumes "counts ev cnt" and "0 < n"
  shows "batch_counted cnt n 0 p (try_block ev n p)"
proof -
  obtain r p1 where T: "take_pending_interrupt ev p = (r, p1)"
    by (cases "take_pending_interrupt ev p")
  have c1: "retired cnt 0 p p1" using countsD(3) [OF assms(1), where p = p] T by simp
  show ?thesis
  proof (cases r)
    case (Some e)
    with T c1 assms(2) show ?thesis by (simp add: try_block_def batch_counted_Caught)
  next
    case None
    have eq: "try_block ev n p = (if slow_path p1 then slow_loop ev n 0 (pc p) p1
                   else fast_loop ev n 0 (pc p) p1)"
      using T None by (simp add: try_block_def)
    have loop: "batch_counted cnt n 0 p1 (try_block ev n p)"
      unfolding eq
      using slow_loop_counts [OF assms(1), where instret = 0 and n = n and p = p1 and a = "pc p"]
        fast_loop_counts [OF assms(1), where instret = 0 and n = n and p = p1 and a = "pc p"]
      by simp
    show ?thesis
    proof (cases "try_block ev n p")
      case (Normal i q)
      from loop [unfolded Normal batch_counted_Normal]
      have b: "i \<le> n" "retired cnt (i - 0) p1 q" by blast+
      have "retired cnt (i - 0) p q"
        using retired_trans [OF c1 b(2)] by (rule retired_eq) simp
      with b(1) show ?thesis unfolding Normal batch_counted_Normal by simp
    next
      case (Caught e i a q)
      from loop [unfolded Caught batch_counted_Caught]
      have b: "i < n" "retired cnt (i - 0) p1 q" by blast+
      have "retired cnt (i - 0) p q"
        using retired_trans [OF c1 b(2)] by (rule retired_eq) simp
      with b(1) show ?thesis unfolding Caught batch_counted_Caught by simp
    next
      case Died
      then show ?thesis by (simp add: batch_counted_Died)
    qed
  qed
qed


lemma aligned_not_before: "push_bit 2 w \<noteq> (3 :: reg_t)"
proof
  assume "push_bit 2 w = (3 :: reg_t)"
  then have "bit (push_bit 2 w) 0 = bit (3 :: reg_t) 0" by simp
  then show False by (simp add: bit_simps)
qed

lemma counted_toy_fetch: "counted rvv_encoding (\<lambda>x. x) (toy_fetch stop)"
  unfolding counted_def
  by (auto simp add: toy_fetch_def retired_def rvv_encoding_def aligned_not_before
      split: option.splits)

lemma counts_toy_env: "counts (toy_env stop) (\<lambda>x. x)"
proof -
  have e: "enc (toy_env stop) = rvv_encoding" by (simp add: toy_env_def)
  have i: "invalid_pc rvv_encoding (PC_SERIALIZE_BEFORE rvv_encoding)"
    by (simp add: rvv_encoding_def)
  have t: "\<And>p e. ic_tag (toy_env stop) p e \<noteq> PC_SERIALIZE_BEFORE rvv_encoding"
    by (simp add: toy_env_def rvv_encoding_def aligned_not_before)
  show ?thesis
    unfolding counts_def e
    using i t by (simp add: toy_env_def counted_toy_fetch retired_def)
qed






lemma log_file_uop_loop [simp]: "log_file (uop_loop cs a i vregs p) = log_file p"
  by (induction vregs arbitrary: p) (simp_all add: uop_step_def)

lemma log_file_log_print_sift_trace [simp]:
  "log_file (log_print_sift_trace cs a i p) = log_file p"
  by (simp add: log_print_sift_trace_def scalar_trace_def Let_def)

text \<open>
  A batch that the wait for an interrupt leaves, whatever state and quota the pass of
  \<^verbatim>\<open>while (n > 0)\<close> is entered with: the instruction that waits is counted, the
  counters are bumped, and the loop ends in the state the exception left.
\<close>

lemma wfi_ends_batch:
  assumes "counts ev cnt" and "0 < n"
    and "try_block ev n p = Caught WaitForInterrupt k a q"
  shows "k < n" and "retired cnt k p q"
    and "step_loop ev (Suc fuel) n p = Some (Finished (bump_counters (k + 1) q))"
proof -
  from try_block_counts [OF assms(1,2), where p = p, unfolded assms(3) batch_counted_Caught]
  show "k < n" and "retired cnt k p q" by simp_all
  have "catch_block ev n (try_block ev n p) = Continue (k + 1) (k + 1) q"
    unfolding assms(3) by (simp add: catch_block_def)
  then show "step_loop ev (Suc fuel) n p = Some (Finished (bump_counters (k + 1) q))"
    using assms(2) by simp
qed

text \<open>
  C9. A handler throws \<^verbatim>\<open>wait_for_interrupt_t\<close> with commit logging enabled, and the
  commit-log line can be printed: \<open>execute_insn\<close> appends the line for the instruction
  to the log file, writes its trace records, and throws the same signal on. And a call
  \<open>step(n)\<close>, \<open>n > 0\<close>, whose batch that signal leaves with the local \<^verbatim>\<open>instret\<close> at
  \<open>k\<close>, after \<open>k\<close> instructions that ran to their end: the call returns in the state
  the signal left, not touched but for \<^verbatim>\<open>minstret\<close> and \<^verbatim>\<open>mcycle\<close>, each \<open>k + 1\<close>
  greater than at the call; no other batch is run.
\<close>

theorem wfi_commits_and_returns:
  assumes "func fetch (commit_log_stash_privilege (commit_log_reset p0)) (insn fetch) pc0
             = (Inl WaitForInterrupt, p1)"
    and "log_commits_enabled p1"
    and "commit_log_print_insn pc0 (insn fetch)
           (record_executed_insn (insn_bits (insn fetch)) p1) = Some p2"
    and "counts ev cnt" and "0 < n"
    and "try_block ev n (halt_check ev p) = Caught WaitForInterrupt k a q"
  shows "execute_insn cs p0 pc0 fetch
           = Throw WaitForInterrupt (log_print_sift_trace cs pc0 (insn fetch) p2)
       \<and> (\<exists>line. log_file (log_print_sift_trace cs pc0 (insn fetch) p2) = log_file p1 @ [line])
       \<and> k < n
       \<and> retired cnt k p q
       \<and> step ev (Suc fuel) n p = Some (Finished (bump_counters (k + 1) q))
       \<and> minstret (bump_counters (k + 1) q) = minstret p + of_nat (k + 1)
       \<and> mcycle (bump_counters (k + 1) q) = mcycle p + of_nat (k + 1)
       \<and> cnt (arch (bump_counters (k + 1) q)) = cnt (arch p) + k"
proof -
  have enabled: "log_commits_enabled (record_executed_insn (insn_bits (insn fetch)) p1)"
    using assms(2) by (simp add: record_executed_insn_def)
  have run: "execute_insn cs p0 pc0 fetch
      = Throw WaitForInterrupt (log_print_sift_trace cs pc0 (insn fetch) p2)"
    using assms(1,3) enabled by (simp add: execute_insn_def commit_and_trace_def Let_def)
  obtain line where line: "p2 = (record_executed_insn (insn_bits (insn fetch)) p1)
      \<lparr>log_file := log_file (record_executed_insn (insn_bits (insn fetch)) p1) @ [line]\<rparr>"
    using commit_log_print_insn_log_file [OF assms(3)] by blast
  have "log_file p2 = log_file p1 @ [line]"
    by (subst line) (simp add: record_executed_insn_def)
  then have lf: "\<exists>line. log_file (log_print_sift_trace cs pc0 (insn fetch) p2) = log_file p1 @ [line]"
    by simp
  have h: "retired cnt 0 p (halt_check ev p)"
    using countsD(8) [OF assms(4), where p = p] by (simp add: halt_check_def)
  note b = wfi_ends_batch [OF assms(4,5,6)]
  have r: "retired cnt k p q"
    using retired_trans [OF h b(2)] by simp
  have s: "step ev (Suc fuel) n p = Some (Finished (bump_counters (k + 1) q))"
    unfolding step_def by (rule b(3) [where fuel = fuel])
  have c: "minstret (bump_counters (k + 1) q) = minstret p + of_nat (k + 1)"
    "mcycle (bump_counters (k + 1) q) = mcycle p + of_nat (k + 1)"
    "cnt (arch (bump_counters (k + 1) q)) = cnt (arch p) + k"
    using r by (simp_all add: retired_def bump_counters_def)
  from run lf b(1) r s c show ?thesis by blast
qed

theorem wfi_commits_and_returns_witness:
  "(let fetch = toy_fetch (wfi_at 0x80000008);
        p0 = idle_processor 0;
        p1 = commit_log_stash_privilege (commit_log_reset p0);
        p2 = the (commit_log_print_insn 0x80000008 (insn fetch)
                   (record_executed_insn (insn_bits (insn fetch)) p1));
        ev = toy_env (wfi_at 0x80000008);
        p = idle_processor 0;
        q = (case try_block ev 5 (halt_check ev p) of Caught e k a q \<Rightarrow> q | _ \<Rightarrow> p)
    in execute_insn rvv_encoding p0 0x80000008 fetch
           = Throw WaitForInterrupt (log_print_sift_trace rvv_encoding 0x80000008 (insn fetch) p2)
       \<and> (\<exists>line. log_file (log_print_sift_trace rvv_encoding 0x80000008 (insn fetch) p2) = log_file p1 @ [line])
       \<and> (2::nat) < 5
       \<and> retired (\<lambda>x. x) 2 p q
       \<and> step ev (Suc 0) 5 p = Some (Finished (bump_counters (2 + 1) q))
       \<and> minstret (bump_counters (2 + 1) q) = minstret p + of_nat (2 + 1)
       \<and> mcycle (bump_counters (2 + 1) q) = mcycle p + of_nat (2 + 1)
       \<and> (\<lambda>x. x) (arch (bump_counters (2 + 1) q)) = (\<lambda>x. x) (arch p) + 2)
   \<and> (case execute_insn rvv_encoding (idle_processor 0) 0x80000008 (toy_fetch (wfi_at 0x80000008)) of
        Throw e r \<Rightarrow> e = WaitForInterrupt \<and> length (log_file r) = 1 \<and> length (log_writer r) = 1
      | _ \<Rightarrow> False)
   \<and> (case step (toy_env (wfi_at 0x80000008)) 1 5 (idle_processor 0) of
        Some (Finished r) \<Rightarrow>
          pc r = 0x80000008 \<and> minstret r = 3 \<and> mcycle r = 3 \<and> arch r = 2
          \<and> length (log_file r) = 3
      | _ \<Rightarrow> False)
   \<and> (case step (toy_env (wfi_at 0x80000008)) 1 5 ((idle_processor 0)\<lparr>debug := True\<rparr>) of
        Some (Finished r) \<Rightarrow>
          pc r = 0x80000008 \<and> minstret r = 3 \<and> mcycle r = 3 \<and> arch r = 2
          \<and> length (log_file r) = 3
      | _ \<Rightarrow> False)"
proof -
  let ?fetch = "toy_fetch (wfi_at 0x80000008)"
  let ?p = "idle_processor (0 :: nat)"
  let ?p1 = "commit_log_stash_privilege (commit_log_reset ?p)"
  let ?print = "commit_log_print_insn 0x80000008 (insn ?fetch)
                   (record_executed_insn (insn_bits (insn ?fetch)) ?p1)"
  let ?ev = "toy_env (wfi_at 0x80000008)"
  let ?b = "try_block ?ev 5 (halt_check ?ev ?p)"
  have h1: "func ?fetch (commit_log_stash_privilege (commit_log_reset ?p)) (insn ?fetch) 0x80000008
              = (Inl WaitForInterrupt, ?p1)"
    by (simp add: toy_fetch_def wfi_at_def)
  have h2: "log_commits_enabled ?p1"
    by (simp add: commit_log_stash_privilege_def commit_log_reset_def idle_processor_def)
  have "?print \<noteq> None" by code_simp
  then have h3: "?print = Some (the ?print)" by simp
  have h4: "counts ?ev (\<lambda>x. x)" by (rule counts_toy_env)
  have h5: "0 < (5 :: nat)" by simp
  have "(case ?b of Caught e k a q \<Rightarrow> e = WaitForInterrupt \<and> k = 2 \<and> a = 0x80000008 | _ \<Rightarrow> False)"
    by code_simp
  then have h6: "?b = Caught WaitForInterrupt 2 0x80000008 (case ?b of Caught e k a q \<Rightarrow> q | _ \<Rightarrow> ?p)"
    by (cases ?b) simp_all
  have e0: "(case execute_insn rvv_encoding (idle_processor 0) 0x80000008 (toy_fetch (wfi_at 0x80000008)) of
        Throw e r \<Rightarrow> e = WaitForInterrupt \<and> length (log_file r) = 1 \<and> length (log_writer r) = 1
      | _ \<Rightarrow> False)"
    by code_simp
  have e1: "(case step (toy_env (wfi_at 0x80000008)) 1 5 (idle_processor 0) of
        Some (Finished r) \<Rightarrow>
          pc r = 0x80000008 \<and> minstret r = 3 \<and> mcycle r = 3 \<and> arch r = 2
          \<and> length (log_file r) = 3
      | _ \<Rightarrow> False)"
    by code_simp
  have e2: "(case step (toy_env (wfi_at 0x80000008)) 1 5 ((idle_processor 0)\<lparr>debug := True\<rparr>) of
        Some (Finished r) \<Rightarrow>
          pc r = 0x80000008 \<and> minstret r = 3 \<and> mcycle r = 3 \<and> arch r = 2
          \<and> length (log_file r) = 3
      | _ \<Rightarrow> False)"
    by code_simp
  show ?thesis
    unfolding Let_def
    by (rule conjI [OF wfi_commits_and_returns [OF h1 h2 h3 h4 h5 h6] conjI [OF e0 conjI [OF e1 e2]]])
qed








end
